theory Spec2Isabelle
  imports
    Complex_Main
    "HOL-Library.Word"
    "HOL-Library.Char_ord"
    "HOL-Library.List_Lexorder"
    "HOL-Library.Log_Nat"
begin

section \<open>SJR: the document node of \<^verbatim>\<open>src/SJR.h\<close>\<close>

text \<open>
  A shallow embedding of the class \<^verbatim>\<open>SJR\<close>: the node with its four fields, the typed
  accessors, the recursive-descent parser over a \<^verbatim>\<open>char*\<close> cursor and the serializer.
  Mutation of \<^verbatim>\<open>this\<close> is explicit state passing: a member function takes the node and
  returns the node it leaves behind. A C++ exception is a value of type \<open>error\<close>.
\<close>

subsection \<open>Data model\<close>

text \<open>\<^verbatim>\<open>enum class Type : int\<close>, lines 16-24. \<^verbatim>\<open>Type::INT\<close> is written \<open>INT'\<close>.\<close>

datatype Type = BOOL | INT' | FLOAT | STRING | ARRAY | OBJECT

text \<open>
  The private fields, lines 50-54. \<^verbatim>\<open>std::map<std::string, SJR> mapJson\<close> is the list of
  its entries in iteration order, which for \<^verbatim>\<open>std::map\<close> is ascending key order (see
  \<open>map_sorted\<close> below); \<^verbatim>\<open>std::vector<SJR> vectorJson\<close> is a list. The field
  \<^verbatim>\<open>value\<close> is written \<open>value'\<close> here.
\<close>

datatype SJR =
  SJR (mapJson: "(string \<times> SJR) list") (vectorJson: "SJR list") (value': string) (type: Type)

text \<open>The implicitly defined default constructor: empty containers, empty text,
  \<^verbatim>\<open>type = Type::OBJECT\<close> (line 54).\<close>

definition default_SJR :: SJR where
  "default_SJR = SJR [] [] [] OBJECT"

text \<open>Field assignments.\<close>

definition set_mapJson :: "(string \<times> SJR) list \<Rightarrow> SJR \<Rightarrow> SJR" where
  "set_mapJson m n = SJR m (vectorJson n) (value' n) (type n)"

definition set_vectorJson :: "SJR list \<Rightarrow> SJR \<Rightarrow> SJR" where
  "set_vectorJson v n = SJR (mapJson n) v (value' n) (type n)"

definition set_value :: "string \<Rightarrow> SJR \<Rightarrow> SJR" where
  "set_value s n = SJR (mapJson n) (vectorJson n) s (type n)"

definition set_type :: "Type \<Rightarrow> SJR \<Rightarrow> SJR" where
  "set_type t n = SJR (mapJson n) (vectorJson n) (value' n) t"

text \<open>
  What the code throws. \<^verbatim>\<open>load\<close> throws \<^verbatim>\<open>std::runtime_error\<close> with one of two
  messages (lines 98 and 111); \<^verbatim>\<open>std::stoi\<close> and \<^verbatim>\<open>std::stof\<close> throw
  \<^verbatim>\<open>std::invalid_argument\<close> when no conversion can be performed and
  \<^verbatim>\<open>std::out_of_range\<close> when the converted value does not fit.
\<close>

datatype error = runtime_error string | invalid_argument | out_of_range

text \<open>The names the specification gives these errors.\<close>

definition IOError :: error where
  "IOError = runtime_error ''File cannot be opened.''"

definition FormatError :: error where
  "FormatError = runtime_error ''File doesn't correspong to json format file.''"

definition ValueTypeError :: "error \<Rightarrow> bool" where
  "ValueTypeError e = (e \<in> {invalid_argument, out_of_range})"

subsection \<open>Characters and decimal text\<close>

text \<open>\<^verbatim>\<open>isspace\<close> and \<^verbatim>\<open>isdigit\<close> of \<^verbatim>\<open><cctype>\<close> in the "C" locale: space, \<^verbatim>\<open>\t \n \v \f \r\<close>;
  and the ten decimal digits.\<close>

definition isspace :: "char \<Rightarrow> bool" where
  "isspace c = (c \<in> set [CHR '' '', CHR 0x09, CHR 0x0A, CHR 0x0B, CHR 0x0C, CHR 0x0D])"

definition isdigit :: "char \<Rightarrow> bool" where
  "isdigit c = (c \<in> set ''0123456789'')"

text \<open>\<^verbatim>\<open>c - '0'\<close> for a digit \<open>c\<close>.\<close>

definition digit_val :: "char \<Rightarrow> int" where
  "digit_val c = of_char c - 48"

definition digit_char :: "int \<Rightarrow> char" where
  "digit_char d = char_of (48 + d)"

text \<open>The decimal digits of a non-negative integer, most significant first.\<close>

function dec :: "int \<Rightarrow> string" where
  "dec n = (if n < 10 then [digit_char n] else dec (n div 10) @ [digit_char (n mod 10)])"
  by pat_completeness auto
termination
  by (relation "measure nat") auto

declare dec.simps [simp del]

text \<open>The number a digit string denotes.\<close>

definition dec_val :: "string \<Rightarrow> int" where
  "dec_val ds = foldl (\<lambda>a c. a * 10 + digit_val c) 0 ds"

text \<open>\<^verbatim>\<open>std::to_string(int)\<close>: \<^verbatim>\<open>%d\<close>. C++ \<^verbatim>\<open>int\<close> is a 32-bit two's complement
  word, read by \<open>sint\<close>.\<close>

definition string_of_int :: "int \<Rightarrow> string" where
  "string_of_int i = (if i < 0 then CHR ''-'' # dec (- i) else dec i)"

definition to_string_int :: "32 word \<Rightarrow> string" where
  "to_string_int w = string_of_int (sint w)"

text \<open>
  \<^verbatim>\<open>std::to_string(bool)\<close>: there is no overload for \<^verbatim>\<open>bool\<close>, the argument is promoted
  to \<^verbatim>\<open>int\<close> and the text is \<^verbatim>\<open>1\<close> or \<^verbatim>\<open>0\<close>.
\<close>

definition to_string_bool :: "bool \<Rightarrow> string" where
  "to_string_bool b = to_string_int (if b then 1 else 0)"

text \<open>
  \<^verbatim>\<open>std::stoi(str)\<close>, base 10: \<^verbatim>\<open>strtol\<close> skips leading white space, reads an optional
  sign and then the longest run of digits; what follows the digits is ignored. No digit:
  \<^verbatim>\<open>std::invalid_argument\<close>. A value outside \<^verbatim>\<open>int\<close>: \<^verbatim>\<open>std::out_of_range\<close>.
\<close>

definition stoi :: "string \<Rightarrow> error + int" where
  "stoi str =
    (let s1 = dropWhile isspace str;
         neg = (s1 \<noteq> [] \<and> hd s1 = CHR ''-'');
         s2 = (if s1 \<noteq> [] \<and> (hd s1 = CHR ''-'' \<or> hd s1 = CHR ''+'') then tl s1 else s1);
         ds = takeWhile isdigit s2;
         v = (if neg then - dec_val ds else dec_val ds)
     in if ds = [] then Inl invalid_argument
        else if v < - (2 ^ 31) \<or> 2 ^ 31 - 1 < v then Inl out_of_range
        else Inr v)"

text \<open>
  The specification's integer text, in the words of its number grammar ("an optional single
  leading \<^verbatim>\<open>+\<close>/\<^verbatim>\<open>-\<close>", digits, no fractional part and no exponent): the whole text is
  an optional sign followed by at least one decimal digit. This definition is not taken from
  the code; the texts that \<open>stoi\<close> accepts are compared with it.
\<close>

definition integer_text :: "string \<Rightarrow> bool" where
  "integer_text s =
    (let ds = (if s \<noteq> [] \<and> (hd s = CHR ''-'' \<or> hd s = CHR ''+'') then tl s else s)
     in ds \<noteq> [] \<and> list_all isdigit ds)"

subsection \<open>The associative container\<close>

text \<open>
  \<^verbatim>\<open>std::map<std::string, SJR>\<close> keeps one entry per key and iterates in ascending key order,
  \<^verbatim>\<open>std::less<std::string>\<close>: lexicographic on the bytes, a proper prefix first. That is
  the order of \<open>string\<close> here. \<open>map_find\<close> is \<^verbatim>\<open>find\<close>, \<open>map_assign k v\<close> is
  \<^verbatim>\<open>m[k] = v\<close>, and \<open>map_subscript k\<close> is the bare \<^verbatim>\<open>m[k]\<close>, which inserts a
  default-constructed node when the key is absent.
\<close>

definition map_sorted :: "(string \<times> SJR) list \<Rightarrow> bool" where
  "map_sorted m = sorted_wrt (<) (map fst m)"

definition map_find :: "(string \<times> SJR) list \<Rightarrow> string \<Rightarrow> SJR option" where
  "map_find m k = map_of m k"

fun map_assign :: "string \<Rightarrow> SJR \<Rightarrow> (string \<times> SJR) list \<Rightarrow> (string \<times> SJR) list" where
  "map_assign k v [] = [(k, v)]"
| "map_assign k v ((k', v') # m) =
    (if k < k' then (k, v) # (k', v') # m
     else if k = k' then (k, v) # m
     else (k', v') # map_assign k v m)"

definition map_subscript :: "string \<Rightarrow> (string \<times> SJR) list \<Rightarrow> (string \<times> SJR) list" where
  "map_subscript k m = (case map_find m k of Some _ \<Rightarrow> m | None \<Rightarrow> map_assign k default_SJR m)"


subsection \<open>Accessors and mutators\<close>

text \<open>\<^verbatim>\<open>setValue<T>\<close>, lines 135-161, for \<^verbatim>\<open>bool\<close>, \<^verbatim>\<open>int\<close> and \<^verbatim>\<open>std::string\<close>.\<close>

definition setValue_bool :: "bool \<Rightarrow> SJR \<Rightarrow> SJR" where
  "setValue_bool newValue n = set_value (to_string_bool newValue) (set_type BOOL n)"

definition setValue_int :: "32 word \<Rightarrow> SJR \<Rightarrow> SJR" where
  "setValue_int newValue n = set_value (to_string_int newValue) (set_type INT' n)"

definition setValue_string :: "string \<Rightarrow> SJR \<Rightarrow> SJR" where
  "setValue_string newValue n = set_value newValue (set_type STRING n)"

text \<open>\<^verbatim>\<open>getType\<close>, lines 164-168, is the selector \<open>type\<close>.\<close>

definition getType :: "SJR \<Rightarrow> Type" where
  "getType n = type n"

text \<open>
  \<^verbatim>\<open>getValue<T>\<close>, lines 171-189. For \<^verbatim>\<open>bool\<close> and \<^verbatim>\<open>int\<close> the body is
  \<^verbatim>\<open>return std::stoi(value)\<close>; the \<^verbatim>\<open>int\<close> converts to \<^verbatim>\<open>bool\<close> as "not zero".
\<close>

definition getValue_int :: "SJR \<Rightarrow> error + int" where
  "getValue_int n = stoi (value' n)"

definition getValue_bool :: "SJR \<Rightarrow> error + bool" where
  "getValue_bool n = (case stoi (value' n) of Inl e \<Rightarrow> Inl e | Inr i \<Rightarrow> Inr (i \<noteq> 0))"

definition getValue_string :: "SJR \<Rightarrow> string" where
  "getValue_string n = value' n"

text \<open>The integral promotion of a \<^verbatim>\<open>bool\<close>, as in \<^verbatim>\<open>b == i\<close> with \<^verbatim>\<open>int i\<close>.\<close>

definition int_of_bool :: "bool \<Rightarrow> int" where
  "int_of_bool b = (if b then 1 else 0)"

text \<open>\<^verbatim>\<open>getChildCount\<close> and \<^verbatim>\<open>getArraySize\<close>, lines 192-203.\<close>

definition getChildCount :: "SJR \<Rightarrow> nat" where
  "getChildCount n = length (mapJson n)"

definition getArraySize :: "SJR \<Rightarrow> nat" where
  "getArraySize n = length (vectorJson n)"

text \<open>
  \<^verbatim>\<open>operator[](std::string_view nodeName)\<close>, lines 206-219. The key is
  \<^verbatim>\<open>nodeName.data()\<close> converted to \<^verbatim>\<open>std::string\<close>: the bytes up to the first NUL.
  The function returns the node it leaves behind; the reference it returns is to the
  entry under that key, read by \<open>child_at\<close>.
\<close>

definition c_str :: "string \<Rightarrow> string" where
  "c_str s = takeWhile (\<lambda>c. c \<noteq> CHR 0x00) s"

definition subscript_key :: "string \<Rightarrow> SJR \<Rightarrow> SJR" where
  "subscript_key nodeName n =
    (case map_find (mapJson n) (c_str nodeName) of
       Some _ \<Rightarrow> n
     | None \<Rightarrow> set_mapJson (map_subscript (c_str nodeName) (mapJson n)) n)"

definition child_at :: "string \<Rightarrow> SJR \<Rightarrow> SJR option" where
  "child_at nodeName n = map_find (mapJson n) (c_str nodeName)"

text \<open>
  \<^verbatim>\<open>std::vector::resize(k)\<close>: the first \<open>k\<close> elements are kept, missing ones are
  default-constructed. \<^verbatim>\<open>std::vector::at(i)\<close> throws \<^verbatim>\<open>std::out_of_range\<close> when
  \<open>i\<close> is not an index. \<^verbatim>\<open>size_t\<close> is \<open>nat\<close>: storage is not bounded in the model.
\<close>

definition resize :: "nat \<Rightarrow> SJR list \<Rightarrow> SJR list" where
  "resize k v = take k v @ replicate (k - length v) default_SJR"

definition vector_at :: "SJR list \<Rightarrow> nat \<Rightarrow> error + SJR" where
  "vector_at v i = (if i < length v then Inr (v ! i) else Inl out_of_range)"

text \<open>
  \<^verbatim>\<open>operator[](size_t index)\<close>, lines 224-239: the node it leaves behind, and the
  element the returned reference designates.
\<close>

definition subscript_index :: "nat \<Rightarrow> SJR \<Rightarrow> SJR" where
  "subscript_index index n =
    (let n1 = (if type n \<noteq> ARRAY then set_type ARRAY (set_vectorJson (resize index (vectorJson n)) n)
               else n);
         n2 = (if index \<ge> length (vectorJson n1)
               then set_vectorJson (resize (index + 1) (vectorJson n1)) n1 else n1)
     in n2)"

definition subscript_index_ref :: "nat \<Rightarrow> SJR \<Rightarrow> error + SJR" where
  "subscript_index_ref index n = vector_at (vectorJson (subscript_index index n)) index"

subsection \<open>Floating point\<close>

text \<open>
  \<^verbatim>\<open>float\<close> and \<^verbatim>\<open>double\<close> are IEEE 754 binary32 and binary64, rounding to nearest, ties
  to even; an expression is evaluated in the type C++ gives it. A value is a sign with an exact
  rational magnitude (so that zero is signed), an infinity, or a NaN. What the language and
  IEEE 754 leave to the platform is fixed as follows: \<^verbatim>\<open>pow(10, k)\<close> is the binary64 number
  nearest to the power (it is exact up to \<open>k = 22\<close>); a \<^verbatim>\<open>double\<close> beyond the \<^verbatim>\<open>float\<close>
  range converts to an infinity; a NaN has no sign and prints as \<^verbatim>\<open>nan\<close>; the conversions
  between decimal text and binary are correctly rounded.
\<close>

datatype fp = Finite bool rat | Infinity bool | NaN

text \<open>Rounding a rational to the nearest integer, ties to even.\<close>

definition round_half_even :: "rat \<Rightarrow> int" where
  "round_half_even q =
    (let f = \<lfloor>q\<rfloor>; r = q - of_int f
     in if r < 1 / 2 then f else if 1 / 2 < r then f + 1 else if even f then f else f + 1)"

text \<open>\<open>b\<close> to an integer power; the number of base-\<open>b\<close> digits of a positive integer; and
  \<open>ilog b q\<close>, the integer \<open>e\<close> with \<open>b ^ e \<le> q < b ^ (e + 1)\<close> for positive \<open>q\<close>.\<close>

definition pow_int :: "rat \<Rightarrow> int \<Rightarrow> rat" where
  "pow_int b e = (if 0 \<le> e then b ^ nat e else 1 / b ^ nat (- e))"

function ndigits :: "int \<Rightarrow> int \<Rightarrow> int" where
  "ndigits b n = (if n \<le> 0 \<or> b \<le> 1 then 0 else 1 + ndigits b (n div b))"
  by pat_completeness auto
termination
  by (relation "measure (\<lambda>(b, n). nat n)") (auto simp: int_div_less_self)

declare ndigits.simps [simp del]

definition ilog :: "int \<Rightarrow> rat \<Rightarrow> int" where
  "ilog b q =
    (let (n, d) = quotient_of q;
         e = ndigits b n - ndigits b d
     in if pow_int (of_int b) e \<le> q then e else e - 1)"

text \<open>
  \<open>round_to p emin emax s q\<close>: the magnitude \<open>q\<close> rounded to \<open>p\<close> significant bits with
  exponent range \<open>emin .. emax\<close> (subnormal below \<open>2 ^ emin\<close>, an infinity past the largest
  finite number), with sign \<open>s\<close>.
\<close>

definition round_to :: "nat \<Rightarrow> int \<Rightarrow> int \<Rightarrow> bool \<Rightarrow> rat \<Rightarrow> fp" where
  "round_to p emin emax s q =
    (if q = 0 then Finite s 0
     else let e = max (ilog 2 q) emin;
              u = pow_int 2 (e - int p + 1);
              r = of_int (round_half_even (q / u)) * u
          in if emax < ilog 2 r then Infinity s else Finite s r)"

definition round32 :: "bool \<Rightarrow> rat \<Rightarrow> fp" where
  "round32 = round_to 24 (- 126) 127"

definition round64 :: "bool \<Rightarrow> rat \<Rightarrow> fp" where
  "round64 = round_to 53 (- 1022) 1023"

text \<open>The arithmetic operators, each with the rounding of its result type.\<close>

definition fp_mul :: "(bool \<Rightarrow> rat \<Rightarrow> fp) \<Rightarrow> fp \<Rightarrow> fp \<Rightarrow> fp" where
  "fp_mul rnd a b =
    (case (a, b) of
       (Finite s m, Finite t k) \<Rightarrow> rnd (s \<noteq> t) (m * k)
     | (Finite s m, Infinity t) \<Rightarrow> (if m = 0 then NaN else Infinity (s \<noteq> t))
     | (Infinity s, Finite t k) \<Rightarrow> (if k = 0 then NaN else Infinity (s \<noteq> t))
     | (Infinity s, Infinity t) \<Rightarrow> Infinity (s \<noteq> t)
     | _ \<Rightarrow> NaN)"

definition fp_div :: "(bool \<Rightarrow> rat \<Rightarrow> fp) \<Rightarrow> fp \<Rightarrow> fp \<Rightarrow> fp" where
  "fp_div rnd a b =
    (case (a, b) of
       (Finite s m, Finite t k) \<Rightarrow>
         (if k = 0 then (if m = 0 then NaN else Infinity (s \<noteq> t)) else rnd (s \<noteq> t) (m / k))
     | (Finite s m, Infinity t) \<Rightarrow> Finite (s \<noteq> t) 0
     | (Infinity s, Finite t k) \<Rightarrow> Infinity (s \<noteq> t)
     | _ \<Rightarrow> NaN)"

definition signed :: "bool \<Rightarrow> rat \<Rightarrow> rat" where
  "signed s m = (if s then - m else m)"

definition fp_add :: "(bool \<Rightarrow> rat \<Rightarrow> fp) \<Rightarrow> fp \<Rightarrow> fp \<Rightarrow> fp" where
  "fp_add rnd a b =
    (case (a, b) of
       (Finite s m, Finite t k) \<Rightarrow>
         (let x = signed s m + signed t k
          in if x = 0 then Finite (s \<and> t) 0 else rnd (x < 0) \<bar>x\<bar>)
     | (Finite s m, Infinity t) \<Rightarrow> Infinity t
     | (Infinity s, Finite t k) \<Rightarrow> Infinity s
     | (Infinity s, Infinity t) \<Rightarrow> (if s = t then Infinity s else NaN)
     | _ \<Rightarrow> NaN)"

text \<open>The conversions \<^verbatim>\<open>double\<close> to \<^verbatim>\<open>float\<close> and \<^verbatim>\<open>int\<close> to \<^verbatim>\<open>float\<close>, and
  \<^verbatim>\<open>pow(10, e)\<close> for an integer \<open>e\<close>.\<close>

definition to_float :: "fp \<Rightarrow> fp" where
  "to_float v = (case v of Finite s m \<Rightarrow> round32 s m | _ \<Rightarrow> v)"

definition float_of_int :: "int \<Rightarrow> fp" where
  "float_of_int i = round32 (i < 0) (of_int \<bar>i\<bar>)"

definition pow10 :: "int \<Rightarrow> fp" where
  "pow10 e = round64 False (pow_int 10 e)"

text \<open>\<^verbatim>\<open>std::to_string(double)\<close>: \<^verbatim>\<open>%f\<close>, six digits after the point.\<close>

definition pad_left :: "nat \<Rightarrow> string \<Rightarrow> string" where
  "pad_left k s = replicate (k - length s) CHR ''0'' @ s"

definition fixed_text :: "nat \<Rightarrow> rat \<Rightarrow> string" where
  "fixed_text k m =
    (let n = round_half_even (m * 10 ^ k)
     in dec (n div 10 ^ k) @ (if k = 0 then [] else CHR ''.'' # pad_left k (dec (n mod 10 ^ k))))"

definition sign_text :: "bool \<Rightarrow> string" where
  "sign_text s = (if s then ''-'' else [])"

definition to_string_double :: "fp \<Rightarrow> string" where
  "to_string_double v =
    (case v of
       Finite s m \<Rightarrow> sign_text s @ fixed_text 6 m
     | Infinity s \<Rightarrow> sign_text s @ ''inf''
     | NaN \<Rightarrow> ''nan'')"

text \<open>
  \<^verbatim>\<open>ostream << float\<close> with the stream's default format: \<^verbatim>\<open>%g\<close> with precision 6. The
  value is rounded to six significant digits; with decimal exponent \<open>x\<close> of the rounded value,
  fixed notation is used for \<open>- 4 \<le> x < 6\<close> and scientific notation otherwise, trailing zeros
  removed.
\<close>

definition strip_zeros :: "string \<Rightarrow> string" where
  "strip_zeros s = rev (dropWhile (\<lambda>c. c = CHR ''0'') (rev s))"

definition general_text :: "rat \<Rightarrow> string" where
  "general_text m =
    (let x0 = ilog 10 m;
         d0 = round_half_even (m / pow_int 10 (x0 - 5));
         x = (if d0 = 10 ^ 6 then x0 + 1 else x0);
         ds = dec (if d0 = 10 ^ 6 then 10 ^ 5 else d0)
     in if - 4 \<le> x \<and> x < 6 then
          (if 0 \<le> x then
             take (nat x + 1) ds @
               (let f = strip_zeros (drop (nat x + 1) ds) in if f = [] then [] else CHR ''.'' # f)
           else ''0.'' @ replicate (nat (- x - 1)) CHR ''0'' @ strip_zeros ds)
        else
          take 1 ds @ (let f = strip_zeros (drop 1 ds) in if f = [] then [] else CHR ''.'' # f) @
          ''e'' @ (if x < 0 then ''-'' else ''+'') @ pad_left 2 (dec \<bar>x\<bar>))"

definition put_float :: "fp \<Rightarrow> string" where
  "put_float v =
    (case v of
       Finite s m \<Rightarrow> sign_text s @ (if m = 0 then ''0'' else general_text m)
     | Infinity s \<Rightarrow> sign_text s @ ''inf''
     | NaN \<Rightarrow> ''nan'')"

text \<open>
  \<^verbatim>\<open>std::stof(str)\<close>: \<^verbatim>\<open>strtof\<close> skips white space, reads a sign and then \<^verbatim>\<open>inf\<close>,
  \<^verbatim>\<open>nan\<close> (in any case) or a decimal number with optional fraction and exponent; what follows
  is ignored. No digit: \<^verbatim>\<open>std::invalid_argument\<close>. A result that overflows, or that is
  below the normal range and inexact: \<^verbatim>\<open>std::out_of_range\<close>. Hexadecimal notation
  (\<^verbatim>\<open>0x\<close>) is not modelled; the class never stores such a text in a FLOAT node.
\<close>

definition lower :: "char \<Rightarrow> char" where
  "lower c = (if CHR ''A'' \<le> c \<and> c \<le> CHR ''Z'' then char_of (of_char c + (32::nat)) else c)"

definition stof :: "string \<Rightarrow> error + fp" where
  "stof str =
    (let s1 = dropWhile isspace str;
         neg = (s1 \<noteq> [] \<and> hd s1 = CHR ''-'');
         s2 = (if s1 \<noteq> [] \<and> (hd s1 = CHR ''-'' \<or> hd s1 = CHR ''+'') then tl s1 else s1);
         ip = takeWhile isdigit s2;
         r1 = dropWhile isdigit s2;
         dot = (r1 \<noteq> [] \<and> hd r1 = CHR ''.'');
         fr = (if dot then takeWhile isdigit (tl r1) else []);
         r2 = (if dot then dropWhile isdigit (tl r1) else r1);
         r3 = (if r2 \<noteq> [] \<and> (hd r2 = CHR ''e'' \<or> hd r2 = CHR ''E'') then tl r2 else []);
         eneg = (r3 \<noteq> [] \<and> hd r3 = CHR ''-'');
         ed = takeWhile isdigit
                (if r3 \<noteq> [] \<and> (hd r3 = CHR ''-'' \<or> hd r3 = CHR ''+'') then tl r3 else r3);
         ex = (if eneg then - dec_val ed else dec_val ed);
         m = of_int (dec_val (ip @ fr)) * pow_int 10 (ex - int (length fr));
         r = round32 neg m
     in if map lower (take 3 s2) = ''inf'' then Inr (Infinity neg)
        else if map lower (take 3 s2) = ''nan'' then Inr NaN
        else if ip = [] \<and> fr = [] then Inl invalid_argument
        else if r = Infinity neg \<or> (m < pow_int 2 (- 126) \<and> r \<noteq> Finite neg m) then Inl out_of_range
        else Inr r)"

subsection \<open>The parser: cursor and scalar values\<close>

text \<open>
  The cursor \<^verbatim>\<open>char*& file\<close> points into the NUL-terminated buffer \<^verbatim>\<open>str.data()\<close> of
  \<^verbatim>\<open>load\<close>. It is modelled by the bytes of the file content from the cursor on; the
  terminating NUL is not in the list: \<open>cur []\<close>, the read \<^verbatim>\<open>*file\<close> at the end of the
  content, is NUL. \<^verbatim>\<open>++file\<close> is \<open>tl\<close>. Stepping past the terminator and reading there is
  a read outside the buffer (undefined behaviour): the outcome \<open>OutOfBounds\<close>. A loop that
  runs forever is the outcome \<open>Diverges\<close>.
\<close>

datatype 'a outcome = Returned 'a | OutOfBounds | Diverges

type_synonym cursor = string

definition cur :: "cursor \<Rightarrow> char" where
  "cur file = (case file of [] \<Rightarrow> CHR 0x00 | c # _ \<Rightarrow> c)"

text \<open>\<^verbatim>\<open>skipWhiteSpace\<close>, lines 256-262. NUL is not white space, so the loop stops at the
  terminator.\<close>

definition skipWhiteSpace :: "cursor \<Rightarrow> cursor" where
  "skipWhiteSpace file = dropWhile isspace file"

text \<open>
  \<^verbatim>\<open>memcmp(file, lit, k) == 0\<close> for a literal of \<open>k\<close> bytes without NUL: the next \<open>k\<close>
  bytes are the literal. When fewer than \<open>k\<close> bytes of content remain the comparison meets the
  terminator, which differs from every byte of the literal.
\<close>

definition memcmp_eq :: "cursor \<Rightarrow> string \<Rightarrow> bool" where
  "memcmp_eq file lit = (take (length lit) file = lit)"

text \<open>\<^verbatim>\<open>parseBool\<close>, lines 385-400. The result is the returned flag, the node and the
  cursor.\<close>

definition parseBool :: "SJR \<Rightarrow> cursor \<Rightarrow> bool \<times> SJR \<times> cursor" where
  "parseBool n file =
    (let resultTrue = memcmp_eq file ''true'';
         resultFalse = memcmp_eq file ''false''
     in if resultTrue \<or> resultFalse
        then (True, set_type BOOL (set_value (to_string_bool resultTrue) n),
              drop (if resultTrue then 4 else 5) file)
        else (False, n, file))"

text \<open>
  \<^verbatim>\<open>parseNumber\<close>, lines 403-478. \<open>scan_digits\<close> is the loop of lines 421-426 on the
  \<^verbatim>\<open>int\<close> accumulator (32-bit, wrapping); \<open>scan_fraction\<close> is the loop of lines 437-445,
  one \<open>fraction_step\<close> per digit; \<open>scan_exponent\<close> is the loop of lines 460-464, whose body
  does not move the cursor: it is a partial function, \<open>None\<close> when the loop does not end.
\<close>

fun scan_digits :: "32 word \<Rightarrow> cursor \<Rightarrow> 32 word \<times> cursor" where
  "scan_digits valueInt [] = (valueInt, [])"
| "scan_digits valueInt (c # file) =
    (if isdigit c then scan_digits (valueInt * 10 + of_int (digit_val c)) file
     else (valueInt, c # file))"

definition fraction_step :: "fp \<Rightarrow> nat \<Rightarrow> char \<Rightarrow> fp" where
  "fraction_step valueFloat shift c =
    (let v1 = to_float (fp_mul round64 valueFloat (pow10 (int shift)));
         v2 = fp_add round32 v1 (float_of_int (digit_val c))
     in to_float (fp_div round64 v2 (pow10 (int shift))))"

fun scan_fraction :: "fp \<Rightarrow> nat \<Rightarrow> cursor \<Rightarrow> fp \<times> cursor" where
  "scan_fraction valueFloat shift [] = (valueFloat, [])"
| "scan_fraction valueFloat shift (c # file) =
    (if isdigit c then scan_fraction (fraction_step valueFloat shift c) (shift + 1) file
     else (valueFloat, c # file))"

partial_function (option) scan_exponent :: "cursor \<Rightarrow> 32 word \<Rightarrow> 32 word option" where
  "scan_exponent file valueInt =
    (if isdigit (cur file)
     then scan_exponent file (valueInt * 10 + of_int (digit_val (cur file)))
     else Some valueInt)"

declare scan_exponent.simps [code]

definition sign_factor :: "bool \<Rightarrow> fp" where
  "sign_factor signNegative = Finite signNegative 1"

definition parseNumber :: "SJR \<Rightarrow> cursor \<Rightarrow> (bool \<times> SJR \<times> cursor) outcome" where
  "parseNumber n file =
    (let signNegative = (cur file = CHR ''-'');
         signPositive = (cur file = CHR ''+'');
         sign = (signNegative \<or> signPositive)
     in if sign \<or> isdigit (cur file) then
          (let (valueInt, f1) = scan_digits 0 (if sign then tl file else file)
           in if cur f1 = CHR ''.'' then
                (let (valueFloat, f2) = scan_fraction (float_of_int (sint valueInt)) 1 (tl f1)
                 in Returned (True,
                      set_value (to_string_double (fp_mul round64 valueFloat (sign_factor signNegative)))
                        (set_type FLOAT n), f2))
              else if cur f1 = CHR ''e'' \<or> cur f1 = CHR ''E'' then
                (case scan_exponent (tl f1) 0 of
                   None \<Rightarrow> Diverges
                 | Some exponent \<Rightarrow>
                     (let valueFloat = fp_mul round32 (float_of_int (sint valueInt))
                                         (to_float (pow10 (sint exponent)))
                      in Returned (True,
                           set_value (to_string_double (fp_mul round64 valueFloat (sign_factor signNegative)))
                             (set_type FLOAT n), tl f1)))
              else Returned (True,
                     set_value (to_string_int (valueInt * (if signNegative then - 1 else 1)))
                       (set_type INT' n), f1))
        else Returned (False, n, file))"

text \<open>
  \<^verbatim>\<open>parseString\<close>, lines 481-510; \<open>scan_string\<close> is its loop. White space inside the
  literal is skipped; when the closing quote follows white space the function returns with the
  cursor still on the quote (line 496).
\<close>

lemma skipWhiteSpace_length: "length (skipWhiteSpace file) \<le> length file"
  by (simp add: skipWhiteSpace_def length_dropWhile_le)

lemma skip_cons_shorter: "skipWhiteSpace file = c # f2 \<Longrightarrow> length f2 < length file"
  using skipWhiteSpace_length [of "file"] by simp

function scan_string :: "SJR \<Rightarrow> cursor \<Rightarrow> (bool \<times> SJR \<times> cursor) outcome" where
  "scan_string n file =
    (if cur file = CHR 0x22 then Returned (True, n, tl file)
     else let f1 = skipWhiteSpace file
          in if cur f1 = CHR 0x22 then Returned (True, n, f1)
             else (case f1 of
                     [] \<Rightarrow> OutOfBounds
                   | c # f2 \<Rightarrow> scan_string (set_value (value' n @ [c]) n) f2))"
  by pat_completeness auto
termination
  by (relation "measure (\<lambda>(n, file). length file)")
     (auto dest: skip_cons_shorter [OF sym])

declare scan_string.simps [simp del]

definition parseString :: "SJR \<Rightarrow> cursor \<Rightarrow> (bool \<times> SJR \<times> cursor) outcome" where
  "parseString n file =
    (if cur file = CHR 0x22 then scan_string (set_type STRING n) (tl file)
     else Returned (False, n, file))"

text \<open>The key loop of \<^verbatim>\<open>parseObject\<close>, lines 591-603: it ends on a quote, or runs past the
  terminator.\<close>

function scan_key :: "string \<Rightarrow> cursor \<Rightarrow> (string \<times> cursor) option" where
  "scan_key nodeName file =
    (if cur file = CHR 0x22 then Some (nodeName, file)
     else let f1 = skipWhiteSpace file
          in if cur f1 = CHR 0x22 then Some (nodeName, f1)
             else (case f1 of
                     [] \<Rightarrow> None
                   | c # f2 \<Rightarrow> scan_key (nodeName @ [c]) f2))"
  by pat_completeness auto
termination
  by (relation "measure (\<lambda>(n, file). length file)")
     (auto dest: skip_cons_shorter [OF sym])


declare scan_key.simps [simp del]

lemma scan_digits_length: "scan_digits v file = (v', f') \<Longrightarrow> length f' \<le> length file"
  by (induction v "file" rule: scan_digits.induct) (auto split: if_splits)

lemma scan_fraction_length: "scan_fraction v k file = (v', f') \<Longrightarrow> length f' \<le> length file"
  by (induction v k "file" rule: scan_fraction.induct) (auto split: if_splits)

lemma scan_string_length: "scan_string n file = Returned (b, n', f') \<Longrightarrow> length f' \<le> length file"
proof (induction n "file" rule: scan_string.induct)
  case (1 n f)
  show ?case
  proof (cases "cur f = CHR 0x22")
    case True
    with "1.prems" show ?thesis by (auto simp: scan_string.simps [of n f])
  next
    case False
    note nq = this
    show ?thesis
    proof (cases "cur (skipWhiteSpace f) = CHR 0x22")
      case True
      with nq "1.prems" skipWhiteSpace_length [of f] show ?thesis
        by (auto simp: scan_string.simps [of n f])
    next
      case False
      show ?thesis
      proof (cases "skipWhiteSpace f")
        case Nil
        with nq False "1.prems" show ?thesis by (simp add: scan_string.simps [of n f])
      next
        case (Cons c f2)
        with nq False "1.prems" have "scan_string (set_value (value' n @ [c]) n) f2 = Returned (b, n', f')"
          by (simp add: scan_string.simps [of n f])
        from "1.IH" [OF nq refl False Cons this] skip_cons_shorter [OF Cons]
        show ?thesis by simp
      qed
    qed
  qed
qed

lemma scan_key_length: "scan_key k file = Some (k', f') \<Longrightarrow> length f' \<le> length file"
proof (induction k "file" rule: scan_key.induct)
  case (1 k f)
  show ?case
  proof (cases "cur f = CHR 0x22")
    case True
    with "1.prems" show ?thesis by (auto simp: scan_key.simps [of k f])
  next
    case False
    note nq = this
    show ?thesis
    proof (cases "cur (skipWhiteSpace f) = CHR 0x22")
      case True
      with nq "1.prems" skipWhiteSpace_length [of f] show ?thesis
        by (auto simp: scan_key.simps [of k f])
    next
      case False
      show ?thesis
      proof (cases "skipWhiteSpace f")
        case Nil
        with nq False "1.prems" show ?thesis by (simp add: scan_key.simps [of k f])
      next
        case (Cons c f2)
        with nq False "1.prems" have "scan_key (k @ [c]) f2 = Some (k', f')"
          by (simp add: scan_key.simps [of k f])
        from "1.IH" [OF nq refl False Cons this] skip_cons_shorter [OF Cons]
        show ?thesis by simp
      qed
    qed
  qed
qed

lemma parseString_length: "parseString n file = Returned (b, n', f') \<Longrightarrow> length f' \<le> length file"
  by (auto simp: parseString_def split: if_splits dest!: scan_string_length)

lemma parseBool_length: "parseBool n file = (b, n', f') \<Longrightarrow> length f' \<le> length file"
  by (auto simp: parseBool_def Let_def split: if_splits)

lemma parseNumber_length: "parseNumber n file = Returned (b, n', f') \<Longrightarrow> length f' \<le> length file"
  by (auto simp: parseNumber_def Let_def split: if_splits prod.splits option.splits
      dest!: scan_digits_length scan_fraction_length)

subsection \<open>The parser: arrays, objects and \<^verbatim>\<open>parse\<close>\<close>

text \<open>
  \<^verbatim>\<open>parse\<close> (lines 656-687), \<^verbatim>\<open>parseArray\<close> (lines 513-564) and \<^verbatim>\<open>parseObject\<close>
  (lines 567-651) with their \<^verbatim>\<open>while\<close> loops. \<open>parseObject_entry\<close> is the block of lines
  588-627 for one key and value: it either returns from \<^verbatim>\<open>parseObject\<close> (\<open>Stop\<close>) or
  falls through to line 630 (\<open>Next\<close>). A call that returns false has still moved the cursor
  and changed the node, and \<^verbatim>\<open>parse\<close> passes both on to the next alternative.
\<close>

type_synonym presult = "(bool \<times> SJR \<times> cursor) outcome"

datatype entry_result = Next SJR cursor | Stop presult

function (sequential)
  parse :: "SJR \<Rightarrow> cursor \<Rightarrow> presult" and
  parseArray :: "SJR \<Rightarrow> cursor \<Rightarrow> presult" and
  parseArray_loop :: "SJR \<Rightarrow> cursor \<Rightarrow> presult" and
  parseObject :: "SJR \<Rightarrow> cursor \<Rightarrow> presult" and
  parseObject_loop :: "SJR \<Rightarrow> cursor \<Rightarrow> presult" and
  parseObject_entry :: "SJR \<Rightarrow> cursor \<Rightarrow> entry_result"
where
  "parse n file =
    (case parseString n (skipWhiteSpace file) of
       Returned (False, n1, f1) \<Rightarrow>
         (case parseBool n1 f1 of
            (False, n2, f2) \<Rightarrow>
              (case parseNumber n2 f2 of
                 Returned (False, n3, f3) \<Rightarrow>
                   (case parseArray n3 f3 of
                      Returned (False, n4, f4) \<Rightarrow> parseObject n4 f4
                    | r \<Rightarrow> r)
               | r \<Rightarrow> r)
          | r \<Rightarrow> Returned r)
     | r \<Rightarrow> r)"
| "parseArray n file =
    (if cur file = CHR ''['' then parseArray_loop (set_type ARRAY n) (tl file)
     else Returned (False, n, file))"
| "parseArray_loop n file =
    (if cur file = CHR '']'' then Returned (True, n, tl file)
     else let f1 = skipWhiteSpace file
          in if cur f1 = CHR '']'' then Returned (True, n, tl f1)
             else (case parse default_SJR f1 of
                     Returned (False, newSJR, f2) \<Rightarrow> Returned (False, n, f2)
                   | Returned (True, newSJR, f2) \<Rightarrow>
                       (let n1 = set_vectorJson (vectorJson n @ [newSJR]) n;
                            f3 = skipWhiteSpace f2
                        in if cur f3 = CHR '']'' then Returned (True, set_type ARRAY n1, tl f3)
                           else if cur f3 \<noteq> CHR '','' then Returned (False, n1, f3)
                           else parseArray_loop n1 (tl f3))
                   | OutOfBounds \<Rightarrow> OutOfBounds
                   | Diverges \<Rightarrow> Diverges))"
| "parseObject n file =
    (if cur file = CHR ''{'' then parseObject_loop (set_type OBJECT n) (tl file)
     else Returned (False, n, file))"
| "parseObject_loop n file =
    (if cur file = CHR ''}'' then Returned (True, n, tl file)
     else let f1 = skipWhiteSpace file
          in if cur f1 = CHR ''}'' then Returned (True, n, tl f1)
             else (case (if cur f1 = CHR 0x22 then parseObject_entry n (tl f1) else Next n f1) of
                     Stop r \<Rightarrow> r
                   | Next n1 f2 \<Rightarrow>
                       (let f3 = skipWhiteSpace f2
                        in if cur f3 = CHR ''}'' then Returned (True, n1, tl f3)
                           else if cur f3 \<noteq> CHR '','' then Returned (False, n1, f3)
                           else parseObject_loop n1 (tl f3))))"
| "parseObject_entry n file =
    (case scan_key [] file of
       None \<Rightarrow> Stop OutOfBounds
     | Some (nodeName, f1) \<Rightarrow>
         if cur f1 \<noteq> CHR 0x22 then Stop (Returned (True, n, f1))
         else let f2 = skipWhiteSpace (tl f1)
              in if cur f2 \<noteq> CHR '':'' then Stop (Returned (True, n, f2))
                 else (case parse default_SJR (skipWhiteSpace (tl f2)) of
                         Returned (False, newNode, f3) \<Rightarrow> Stop (Returned (True, n, f3))
                       | Returned (True, newNode, f3) \<Rightarrow>
                           Next (set_mapJson (map_assign nodeName newNode (mapJson n))
                                   (set_type OBJECT n)) f3
                       | OutOfBounds \<Rightarrow> Stop OutOfBounds
                       | Diverges \<Rightarrow> Stop Diverges))"
  by pat_completeness auto

text \<open>No call moves the cursor backwards; with that the recursion terminates.\<close>

lemma parse_length_dom:
  "parse_parseArray_parseArray_loop_parseObject_parseObject_loop_parseObject_entry_dom (Inl (Inl (n, f))) \<Longrightarrow>
     \<forall>b n' f'. parse n f = Returned (b, n', f') \<longrightarrow> length f' \<le> length f"
  "parse_parseArray_parseArray_loop_parseObject_parseObject_loop_parseObject_entry_dom (Inl (Inr (Inl (n2, f2)))) \<Longrightarrow>
     \<forall>b n' f'. parseArray n2 f2 = Returned (b, n', f') \<longrightarrow> length f' \<le> length f2"
  "parse_parseArray_parseArray_loop_parseObject_parseObject_loop_parseObject_entry_dom (Inl (Inr (Inr (n3, f3)))) \<Longrightarrow>
     \<forall>b n' f'. parseArray_loop n3 f3 = Returned (b, n', f') \<longrightarrow> length f' \<le> length f3"
  "parse_parseArray_parseArray_loop_parseObject_parseObject_loop_parseObject_entry_dom (Inr (Inl (n4, f4))) \<Longrightarrow>
     \<forall>b n' f'. parseObject n4 f4 = Returned (b, n', f') \<longrightarrow> length f' \<le> length f4"
  "parse_parseArray_parseArray_loop_parseObject_parseObject_loop_parseObject_entry_dom (Inr (Inr (Inl (n5, f5)))) \<Longrightarrow>
     \<forall>b n' f'. parseObject_loop n5 f5 = Returned (b, n', f') \<longrightarrow> length f' \<le> length f5"
  "parse_parseArray_parseArray_loop_parseObject_parseObject_loop_parseObject_entry_dom (Inr (Inr (Inr (n6, f6)))) \<Longrightarrow>
     (\<forall>n' f'. parseObject_entry n6 f6 = Next n' f' \<longrightarrow> length f' \<le> length f6) \<and>
     (\<forall>b n' f'. parseObject_entry n6 f6 = Stop (Returned (b, n', f')) \<longrightarrow> length f' \<le> length f6)"
proof (induct rule: parse_parseArray_parseArray_loop_parseObject_parseObject_loop_parseObject_entry.pinduct)
  case (1 n f)
  note dom = "1.hyps"(1) and IHa = "1.hyps"(2) and IHo = "1.hyps"(3)
  note ps = parse.psimps [OF dom]
  have f0: "length (skipWhiteSpace f) \<le> length f" by (rule skipWhiteSpace_length)
  show ?case
  proof (intro allI impI)
    fix b n' f'
    assume res: "parse n f = Returned (b, n', f')"
    show "length f' \<le> length f"
    proof (cases "parseString n (skipWhiteSpace f)")
      case (Returned r1)
      obtain b1 n1 f1 where r1: "r1 = (b1, n1, f1)" by (cases r1) auto
      from Returned r1 have l1: "length f1 \<le> length f"
        using parseString_length f0 by (meson le_trans)
      show ?thesis
      proof (cases b1)
        case True
        with res Returned r1 l1 show ?thesis by (simp add: ps)
      next
        case False
        with Returned r1 have s1: "parseString n (skipWhiteSpace f) = Returned (False, n1, f1)"
          by simp
        obtain b2 n2 f2 where r2: "parseBool n1 f1 = (b2, n2, f2)" by (cases "parseBool n1 f1") auto
        from r2 l1 have l2: "length f2 \<le> length f" using parseBool_length by (meson le_trans)
        show ?thesis
        proof (cases b2)
          case True
          with res s1 r2 l2 show ?thesis by (simp add: ps)
        next
          case False
          with r2 have s2: "parseBool n1 f1 = (False, n2, f2)" by simp
          show ?thesis
          proof (cases "parseNumber n2 f2")
            case (Returned r3)
            obtain b3 n3 f3 where r3: "r3 = (b3, n3, f3)" by (cases r3) auto
            from Returned r3 l2 have l3: "length f3 \<le> length f"
              using parseNumber_length by (meson le_trans)
            show ?thesis
            proof (cases b3)
              case True
              with res s1 s2 Returned r3 l3 show ?thesis by (simp add: ps)
            next
              case False
              with Returned r3 have s3: "parseNumber n2 f2 = Returned (False, n3, f3)" by simp
              note IHa' = IHa [OF s1 refl refl refl s2 [symmetric] refl refl s3 refl refl refl]
              show ?thesis
              proof (cases "parseArray n3 f3")
                case (Returned r4)
                obtain b4 n4 f4 where r4: "r4 = (b4, n4, f4)" by (cases r4) auto
                from IHa' Returned r4 l3 have l4: "length f4 \<le> length f" by (meson le_trans)
                show ?thesis
                proof (cases b4)
                  case True
                  with res s1 s2 s3 Returned r4 l4 show ?thesis by (simp add: ps)
                next
                  case False
                  with Returned r4 have s4: "parseArray n3 f3 = Returned (False, n4, f4)" by simp
                  note IHo' = IHo [OF s1 refl refl refl s2 [symmetric] refl refl s3 refl refl refl
                      s4 refl refl refl]
                  from res s1 s2 s3 s4
                  have "parseObject n4 f4 = Returned (b, n', f')" by (simp add: ps)
                  with IHo' l4 show ?thesis by (meson le_trans)
                qed
              next
                case OutOfBounds
                with res s1 s2 s3 show ?thesis by (simp add: ps)
              next
                case Diverges
                with res s1 s2 s3 show ?thesis by (simp add: ps)
              qed
            qed
          next
            case OutOfBounds
            with res s1 s2 show ?thesis by (simp add: ps)
          next
            case Diverges
            with res s1 s2 show ?thesis by (simp add: ps)
          qed
        qed
      qed
    next
      case OutOfBounds
      with res show ?thesis by (simp add: ps)
    next
      case Diverges
      with res show ?thesis by (simp add: ps)
    qed
  qed
next
  case (2 n f)
  then show ?case
    by (auto simp: parseArray.psimps split: if_splits)
next
  case (3 n f)
  note dom = "3.hyps"(1) and IHp = "3.hyps"(2) and IHl = "3.hyps"(3)
  note ps = parseArray_loop.psimps [OF dom]
  define f1 where "f1 = skipWhiteSpace f"
  have l1: "length f1 \<le> length f" unfolding f1_def by (rule skipWhiteSpace_length)
  show ?case
  proof (intro allI impI)
    fix b n' f'
    assume res: "parseArray_loop n f = Returned (b, n', f')"
    show "length f' \<le> length f"
    proof (cases "cur f = CHR '']''")
      case True
      with res show ?thesis by (auto simp: ps)
    next
      case False
      note c0 = this
      show ?thesis
      proof (cases "cur f1 = CHR '']''")
        case True
        with res c0 l1 show ?thesis by (auto simp: ps f1_def [symmetric])
      next
        case False
        note c1 = this
        note IHp' = IHp [OF c0 f1_def c1]
        show ?thesis
        proof (cases "parse default_SJR f1")
          case (Returned r)
          obtain b1 e f2 where r: "r = (b1, e, f2)" by (cases r) auto
          from IHp' Returned r l1 have l2: "length f2 \<le> length f" by (meson le_trans)
          show ?thesis
          proof (cases b1)
            case False
            with res c0 c1 Returned r l2 show ?thesis by (simp add: ps f1_def [symmetric])
          next
            case True
            with Returned r have p: "parse default_SJR f1 = Returned (True, e, f2)" by simp
            define f3 where "f3 = skipWhiteSpace f2"
            have l3: "length f3 \<le> length f"
              unfolding f3_def using skipWhiteSpace_length l2 by (meson le_trans)
            show ?thesis
            proof (cases "cur f3 = CHR '']''")
              case True
              with res c0 c1 p l3 show ?thesis
                by (auto simp: ps f1_def [symmetric] Let_def f3_def [symmetric])
            next
              case False
              note c3 = this
              show ?thesis
              proof (cases "cur f3 = CHR '',''")
                case False
                with res c0 c1 p c3 l3 show ?thesis
                  by (auto simp: ps f1_def [symmetric] Let_def f3_def [symmetric])
              next
                case True
                then have c4: "\<not> cur f3 \<noteq> CHR '',''" by simp
                note IHl' = IHl [OF c0 f1_def c1 p refl refl refl refl f3_def c3 c4]
                from res c0 c1 p c3 True
                have "parseArray_loop (set_vectorJson (vectorJson n @ [e]) n) (tl f3) = Returned (b, n', f')"
                  by (simp add: ps f1_def [symmetric] Let_def f3_def [symmetric])
                with IHl' have "length f' \<le> length (tl f3)" by blast
                with l3 show ?thesis by simp
              qed
            qed
          qed
        next
          case OutOfBounds
          with res c0 c1 show ?thesis by (simp add: ps f1_def [symmetric])
        next
          case Diverges
          with res c0 c1 show ?thesis by (simp add: ps f1_def [symmetric])
        qed
      qed
    qed
  qed
next
  case (4 n f)
  then show ?case
    by (auto simp: parseObject.psimps split: if_splits)
next
  case (5 n f)
  note dom = "5.hyps"(1) and IHe = "5.hyps"(2) and IHl = "5.hyps"(3)
  note ps = parseObject_loop.psimps [OF dom]
  define f1 where "f1 = skipWhiteSpace f"
  have l1: "length f1 \<le> length f" unfolding f1_def by (rule skipWhiteSpace_length)
  show ?case
  proof (intro allI impI)
    fix b n' f'
    assume res: "parseObject_loop n f = Returned (b, n', f')"
    show "length f' \<le> length f"
    proof (cases "cur f = CHR ''}''")
      case True
      with res show ?thesis by (auto simp: ps)
    next
      case False
      note c0 = this
      show ?thesis
      proof (cases "cur f1 = CHR ''}''")
        case True
        with res c0 l1 show ?thesis by (auto simp: ps f1_def [symmetric])
      next
        case False
        note c1 = this
        define er where "er = (if cur f1 = CHR 0x22 then parseObject_entry n (tl f1) else Next n f1)"
        have er_next: "length g \<le> length f" if "er = Next m g" for m g
        proof (cases "cur f1 = CHR 0x22")
          case True
          from IHe [OF c0 f1_def c1 True] that True have "length g \<le> length (tl f1)"
            by (simp add: er_def)
          with l1 show ?thesis by simp
        next
          case False
          with that l1 show ?thesis by (simp add: er_def)
        qed
        have er_stop: "length g \<le> length f" if "er = Stop (Returned (c, m, g))" for c m g
        proof (cases "cur f1 = CHR 0x22")
          case True
          from IHe [OF c0 f1_def c1 True] that True have "length g \<le> length (tl f1)"
            by (simp add: er_def)
          with l1 show ?thesis by simp
        next
          case False
          with that show ?thesis by (simp add: er_def)
        qed
        show ?thesis
        proof (cases er)
          case (Stop r)
          with res c0 c1 have "r = Returned (b, n', f')"
            by (simp add: ps f1_def [symmetric] er_def [symmetric])
          with Stop er_stop show ?thesis by blast
        next
          case (Next n1 f2)
          note l2 = er_next [OF Next]
          define f3 where "f3 = skipWhiteSpace f2"
          have l3: "length f3 \<le> length f"
            unfolding f3_def using skipWhiteSpace_length l2 by (meson le_trans)
          show ?thesis
          proof (cases "cur f3 = CHR ''}''")
            case True
            with res c0 c1 Next l3 show ?thesis
              by (auto simp: ps f1_def [symmetric] er_def [symmetric] Let_def f3_def [symmetric])
          next
            case False
            note c3 = this
            show ?thesis
            proof (cases "cur f3 = CHR '',''")
              case False
              with res c0 c1 Next c3 l3 show ?thesis
                by (auto simp: ps f1_def [symmetric] er_def [symmetric] Let_def f3_def [symmetric])
            next
              case True
              then have c4: "\<not> cur f3 \<noteq> CHR '',''" by simp
              note IHl' = IHl [OF c0 f1_def c1 Next [unfolded er_def] f3_def c3 c4]
              from res c0 c1 Next c3 True
              have "parseObject_loop n1 (tl f3) = Returned (b, n', f')"
                by (simp add: ps f1_def [symmetric] er_def [symmetric] Let_def f3_def [symmetric])
              with IHl' have "length f' \<le> length (tl f3)" by blast
              with l3 show ?thesis by simp
            qed
          qed
        qed
      qed
    qed
  qed
next
  case (6 n f)
  note dom = "6.hyps"(1) and IHp = "6.hyps"(2)
  note ps = parseObject_entry.psimps [OF dom]
  show ?case
  proof (cases "scan_key [] f")
    case None
    then show ?thesis by (simp add: ps)
  next
    case (Some kf)
    obtain nodeName f1 where kf: "kf = (nodeName, f1)" by (cases kf) auto
    from Some kf have sk: "scan_key [] f = Some (nodeName, f1)" by simp
    from scan_key_length [OF sk] have l1: "length f1 \<le> length f" .
    show ?thesis
    proof (cases "cur f1 = CHR 0x22")
      case False
      with sk l1 show ?thesis by (simp add: ps)
    next
      case True
      then have c1: "\<not> cur f1 \<noteq> CHR 0x22" by simp
      define f2 where "f2 = skipWhiteSpace (tl f1)"
      have l2: "length f2 \<le> length f"
        unfolding f2_def using skipWhiteSpace_length [of "tl f1"] l1 by simp
      show ?thesis
      proof (cases "cur f2 = CHR '':''")
        case False
        with sk True l2 show ?thesis by (simp add: ps f2_def [symmetric])
      next
        case True
        then have c2: "\<not> cur f2 \<noteq> CHR '':''" by simp
        define f4 where "f4 = skipWhiteSpace (tl f2)"
        have l4: "length f4 \<le> length f"
          unfolding f4_def using skipWhiteSpace_length [of "tl f2"] l2 by simp
        note IHp' = IHp [OF sk refl c1 f2_def c2, folded f4_def]
        have eq: "parseObject_entry n f =
          (case parse default_SJR f4 of
             Returned (False, newNode, f3) \<Rightarrow> Stop (Returned (True, n, f3))
           | Returned (True, newNode, f3) \<Rightarrow>
               Next (set_mapJson (map_assign nodeName newNode (mapJson n)) (set_type OBJECT n)) f3
           | OutOfBounds \<Rightarrow> Stop OutOfBounds
           | Diverges \<Rightarrow> Stop Diverges)"
          using sk \<open>cur f1 = CHR 0x22\<close> True by (simp add: ps f2_def [symmetric] f4_def [symmetric])
        show ?thesis
        proof (cases "parse default_SJR f4")
          case (Returned r)
          obtain b1 e f3 where r: "r = (b1, e, f3)" by (cases r) auto
          from IHp' Returned r l4 have "length f3 \<le> length f" by (meson le_trans)
          with Returned r show ?thesis by (cases b1) (simp_all add: eq)
        next
          case OutOfBounds
          then show ?thesis by (simp add: eq)
        next
          case Diverges
          then show ?thesis by (simp add: eq)
        qed
      qed
    qed
  qed
qed


definition parse_measure ::
  "(SJR \<times> cursor + SJR \<times> cursor + SJR \<times> cursor) + SJR \<times> cursor + SJR \<times> cursor + SJR \<times> cursor \<Rightarrow> nat" where
  "parse_measure x =
    (case x of
       Inl (Inl (n, f)) \<Rightarrow> 4 * length f + 2
     | Inl (Inr (Inl (n, f))) \<Rightarrow> 4 * length f + 1
     | Inl (Inr (Inr (n, f))) \<Rightarrow> 4 * length f + 3
     | Inr (Inl (n, f)) \<Rightarrow> 4 * length f + 1
     | Inr (Inr (Inl (n, f))) \<Rightarrow> 4 * length f + 3
     | Inr (Inr (Inr (n, f))) \<Rightarrow> 4 * length f + 3)"

lemma parse_chain_length:
  assumes "parseString n (skipWhiteSpace f) = Returned (False, n1, f1)"
    and "parseBool n1 f1 = (False, n2, f2)"
    and "parseNumber n2 f2 = Returned (False, n3, f3)"
  shows "length f3 \<le> length f"
  using parseString_length [OF assms(1)] parseBool_length [OF assms(2)]
    parseNumber_length [OF assms(3)] skipWhiteSpace_length [of f]
  by simp

lemma cur_nonempty: "cur f = c \<Longrightarrow> c \<noteq> CHR 0x00 \<Longrightarrow> f \<noteq> []"
  by (auto simp: cur_def)

termination parse
proof (relation "measure parse_measure", goal_cases)
  case 1
  show ?case by simp
next
  case (2 n f x1 x y xa ya xb yb xc yc x1a xd yd xe ye)
  then have "length ye \<le> length f"
    by (intro parse_chain_length [of n f xa ya xc yc xe ye]) (simp_all)
  then show ?case by (simp add: parse_measure_def)
next
  case (3 n f x1 x y xa ya xb yb xc yc x1a xd yd xe ye x1b xf yf xg yg)
  then have "length ye \<le> length f"
    by (intro parse_chain_length [of n f xa ya xc yc xe ye]) (simp_all)
  moreover from 3 have "parse_parseArray_parseArray_loop_parseObject_parseObject_loop_parseObject_entry_dom (Inl (Inr (Inl (xe, ye))))" "parseArray xe ye = Returned (False, xg, yg)"
    by simp_all
  then have "length yg \<le> length ye" using parse_length_dom(2) by blast
  ultimately show ?case by (simp add: parse_measure_def)
next
  case (4 n f)
  then have "f \<noteq> []" by (auto simp: cur_def)
  then show ?case by (cases f) (simp_all add: parse_measure_def)
next
  case (5 n f x)
  then show ?case using skipWhiteSpace_length [of f] by (simp add: parse_measure_def)
next
  case (6 n f x x1 xa y xb ya xc xd)
  then have "parse_parseArray_parseArray_loop_parseObject_parseObject_loop_parseObject_entry_dom (Inl (Inl (default_SJR, x)))" "parse default_SJR x = Returned (True, xb, ya)"
    by simp_all
  then have "length ya \<le> length x" using parse_length_dom(1) by blast
  moreover have "length x \<le> length f" using 6 skipWhiteSpace_length [of f] by simp
  moreover have "length xd \<le> length ya" using 6 skipWhiteSpace_length [of ya] by simp
  moreover from 6 have "xd \<noteq> []" by (auto simp: cur_def)
  ultimately show ?case by (cases xd) (simp_all add: parse_measure_def)
next
  case (7 n f)
  then have "f \<noteq> []" by (auto simp: cur_def)
  then show ?case by (cases f) (simp_all add: parse_measure_def)
next
  case (8 n f x)
  then have "x \<noteq> []" by (auto simp: cur_def)
  moreover have "length x \<le> length f" using 8 skipWhiteSpace_length [of f] by simp
  ultimately show ?case by (cases x) (simp_all add: parse_measure_def)
next
  case (9 n f x x11 x12 xa)
  have lx: "length x \<le> length f" using 9 skipWhiteSpace_length [of f] by simp
  have "length x12 \<le> length f"
  proof (cases "cur x = CHR 0x22")
    case True
    with 9 have "parse_parseArray_parseArray_loop_parseObject_parseObject_loop_parseObject_entry_dom (Inr (Inr (Inr (n, tl x))))" "parseObject_entry n (tl x) = Next x11 x12"
      by simp_all
    then have "length x12 \<le> length (tl x)" using parse_length_dom(6) by blast
    with lx show ?thesis by simp
  next
    case False
    with 9 lx show ?thesis by simp
  qed
  moreover have "length xa \<le> length x12" using 9 skipWhiteSpace_length [of x12] by simp
  moreover from 9 have "xa \<noteq> []" by (auto simp: cur_def)
  ultimately show ?case by (cases xa) (simp_all add: parse_measure_def)
next
  case (10 n f x2 x y xa)
  then have "scan_key [] f = Some (x, y)" by simp
  from scan_key_length [OF this] skipWhiteSpace_length [of "tl y"] skipWhiteSpace_length [of "tl xa"] 10
  show ?case by (simp add: parse_measure_def)
qed

text \<open>The defining equations are used by name, not as rewrite rules.\<close>

declare parse.simps [simp del] parseArray.simps [simp del] parseArray_loop.simps [simp del]
  parseObject.simps [simp del] parseObject_loop.simps [simp del] parseObject_entry.simps [simp del]

subsection \<open>\<^verbatim>\<open>load\<close>\<close>

text \<open>
  \<^verbatim>\<open>load\<close>, lines 91-114. The file system is outside the model: the argument is the
  content of the file, \<open>None\<close> when it cannot be opened. The result is the exception thrown
  (if any) and the node as \<^verbatim>\<open>load\<close> leaves it.
\<close>

definition load :: "string option \<Rightarrow> SJR \<Rightarrow> (error option \<times> SJR) outcome" where
  "load contents n =
    (case contents of
       None \<Rightarrow> Returned (Some IOError, n)
     | Some str \<Rightarrow>
         (case parse n str of
            Returned (ok, n', rest) \<Rightarrow> Returned (if ok then None else Some FormatError, n')
          | OutOfBounds \<Rightarrow> OutOfBounds
          | Diverges \<Rightarrow> Diverges))"

subsection \<open>The serializer\<close>

text \<open>
  The output state is the text written so far and the function-local
  \<^verbatim>\<open>static int tabsCount\<close> of \<^verbatim>\<open>writeObject\<close> (line 317), which outlives the call. The
  counter is never negative (it starts at 0 and is decremented only after an increment), so it
  is a \<open>nat\<close>.
\<close>

type_synonym stream = "string \<times> nat"

definition put :: "string \<Rightarrow> stream \<Rightarrow> stream" where
  "put s st = (fst st @ s, snd st)"

definition writeTabs :: "stream \<Rightarrow> stream" where
  "writeTabs st = put (replicate (snd st) CHR 0x09) st"

definition quoted :: "string \<Rightarrow> string" where
  "quoted s = CHR 0x22 # s @ [CHR 0x22]"

text \<open>The line feed and the horizontal tab, as texts.\<close>

definition newline :: string where
  "newline = [CHR 0x0A]"

definition tab :: string where
  "tab = [CHR 0x09]"

text \<open>
  \<^verbatim>\<open>write\<close> (lines 352-382) with \<^verbatim>\<open>writeBool\<close>, \<^verbatim>\<open>writeInt\<close>, \<^verbatim>\<open>writeFloat\<close>,
  \<^verbatim>\<open>writeString\<close>, \<^verbatim>\<open>writeArray\<close> and \<^verbatim>\<open>writeObject\<close> (lines 265-349); the two
  loops are \<open>writeArray_loop\<close> and \<open>writeObject_loop\<close>. An exception of \<^verbatim>\<open>std::stoi\<close> or
  \<^verbatim>\<open>std::stof\<close> ends the traversal and leaves the counter as it is.
\<close>

fun write' :: "SJR \<Rightarrow> stream \<Rightarrow> error option \<times> stream"
  and writeArray_loop :: "SJR list \<Rightarrow> stream \<Rightarrow> error option \<times> stream"
  and writeObject_loop :: "(string \<times> SJR) list \<Rightarrow> stream \<Rightarrow> error option \<times> stream"
where
  "write' (SJR m v s t) st =
    (case t of
       BOOL \<Rightarrow> (case stoi s of Inl e \<Rightarrow> (Some e, st)
                | Inr i \<Rightarrow> (None, put (if i \<noteq> 0 then ''true'' else ''false'') st))
     | INT' \<Rightarrow> (case stoi s of Inl e \<Rightarrow> (Some e, st) | Inr i \<Rightarrow> (None, put (string_of_int i) st))
     | FLOAT \<Rightarrow> (case stof s of Inl e \<Rightarrow> (Some e, st) | Inr x \<Rightarrow> (None, put (put_float x) st))
     | STRING \<Rightarrow> (None, put (quoted s) st)
     | ARRAY \<Rightarrow>
         (case writeArray_loop v (put ''['' st) of
            (None, st1) \<Rightarrow> (None, put '']'' st1)
          | r \<Rightarrow> r)
     | OBJECT \<Rightarrow>
         (let st1 = (if s \<noteq> [] then put '': '' (put (quoted s) st) else st);
              st2 = put [CHR ''{'', CHR 0x0A] (writeTabs (put [CHR 0x0A] st1));
              st3 = writeTabs (fst st2, snd st2 + 1)
          in case writeObject_loop m st3 of
               (None, st4) \<Rightarrow> (None, put ''}'' (writeTabs (put [CHR 0x0A] (fst st4, snd st4 - 1))))
             | r \<Rightarrow> r))"
| "writeArray_loop [] st = (None, st)"
| "writeArray_loop (x # xs) st =
    (case write' x st of
       (None, st1) \<Rightarrow> writeArray_loop xs (if xs \<noteq> [] then put '', '' st1 else st1)
     | r \<Rightarrow> r)"
| "writeObject_loop [] st = (None, st)"
| "writeObject_loop ((k, x) # xs) st =
    (case write' x (put '': '' (put (quoted k) st)) of
       (None, st1) \<Rightarrow>
         writeObject_loop xs (if xs \<noteq> [] then writeTabs (put [CHR 0x0A] (put '', '' st1)) else st1)
     | r \<Rightarrow> r)"

text \<open>\<^verbatim>\<open>save\<close>, lines 117-132: whether the file could be opened and the current value of the
  counter are arguments; the result is what is returned or thrown, and the output state.\<close>

definition save :: "bool \<Rightarrow> nat \<Rightarrow> SJR \<Rightarrow> (error + bool) \<times> stream" where
  "save is_open tabsCount n =
    (if \<not> is_open then (Inr False, ([], tabsCount))
     else case write' n ([], tabsCount) of
            (None, st) \<Rightarrow> (Inr True, st)
          | (Some e, st) \<Rightarrow> (Inl e, st))"

subsection \<open>The text format\<close>

text \<open>
  The values of the specification's text format: "values are one of
  object/array/string/number/bool"; "numbers support sign, integer part, optional fractional
  part" (the exponent is left out: it is the subject of the exponent loop); "strings and keys
  have no escape processing (embedded quotes are not representable)"; white space "is skipped
  between tokens". A syntax tree records the tokens and the white space between them:
  \<open>JInt sg ds\<close> is the sign and the digits, \<open>JFrac sg ds fs\<close> has the fraction digits,
  \<open>JArray ws es\<close> is the white space after the bracket and the elements, each with the white
  space before and after its value, and a member of \<open>JObject\<close> is a key and a value with the
  white space around the key, the colon and the value. These definitions are not taken from
  the code; they describe the inputs that the parser is run on.
\<close>

datatype jsyntax =
    JBool bool
  | JInt string string
  | JFrac string string string
  | JString string
  | JArray string "jelement list"
  | JObject string "jmember list"
and jelement = JElement string jsyntax string
and jmember = JMember string string string string jsyntax string

text \<open>\<open>text_of\<close> is the text of a syntax tree; elements and members are separated by commas.\<close>

fun joined :: "string list \<Rightarrow> string" where
  "joined [] = []"
| "joined [x] = x"
| "joined (x # y # xs) = x @ '','' @ joined (y # xs)"

primrec text_of :: "jsyntax \<Rightarrow> string"
  and element_text :: "jelement \<Rightarrow> string"
  and member_text :: "jmember \<Rightarrow> string"
where
  "text_of (JBool b) = (if b then ''true'' else ''false'')"
| "text_of (JInt sg ds) = sg @ ds"
| "text_of (JFrac sg ds fs) = sg @ ds @ ''.'' @ fs"
| "text_of (JString cs) = quoted cs"
| "text_of (JArray ws es) = ''['' @ ws @ joined (map element_text es) @ '']''"
| "text_of (JObject ws ms) = ''{'' @ ws @ joined (map member_text ms) @ ''}''"
| "element_text (JElement w1 v w2) = w1 @ text_of v @ w2"
| "member_text (JMember w1 k w2 w3 v w4) = w1 @ quoted k @ w2 @ '':'' @ w3 @ text_of v @ w4"

text \<open>
  A syntax tree is well formed when its signs are \<^verbatim>\<open>+\<close>, \<^verbatim>\<open>-\<close> or empty, its digit strings
  are non-empty runs of digits, its white space is white space, and its strings and keys
  contain no quote; the bytes of a string are otherwise arbitrary. A string whose last byte
  before the closing quote is white space is not \<open>closed\<close>: there \<^verbatim>\<open>parseString\<close> returns
  without consuming the closing quote (line 496), which is then \<open>unread\<close>. Such a string is
  a value, but not an element of an array nor the value of a member, where the byte behind
  the value has to be a comma or the closing bracket.
\<close>

definition is_spaces :: "string \<Rightarrow> bool" where
  "is_spaces ws = list_all isspace ws"

definition is_digits :: "string \<Rightarrow> bool" where
  "is_digits ds = (ds \<noteq> [] \<and> list_all isdigit ds)"

definition is_sign :: "string \<Rightarrow> bool" where
  "is_sign sg = (sg = [] \<or> sg = ''+'' \<or> sg = ''-'')"

fun closed :: "jsyntax \<Rightarrow> bool" where
  "closed (JString cs) = (cs = [] \<or> \<not> isspace (last cs))"
| "closed v = True"

definition unread :: "jsyntax \<Rightarrow> string" where
  "unread v = (if closed v then [] else [CHR 0x22])"

primrec well_formed :: "jsyntax \<Rightarrow> bool"
  and well_formed_element :: "jelement \<Rightarrow> bool"
  and well_formed_member :: "jmember \<Rightarrow> bool"
where
  "well_formed (JBool b) = True"
| "well_formed (JInt sg ds) = (is_sign sg \<and> is_digits ds)"
| "well_formed (JFrac sg ds fs) = (is_sign sg \<and> is_digits ds \<and> is_digits fs)"
| "well_formed (JString cs) = (CHR 0x22 \<notin> set cs)"
| "well_formed (JArray ws es) = (is_spaces ws \<and> list_all well_formed_element es)"
| "well_formed (JObject ws ms) = (is_spaces ws \<and> list_all well_formed_member ms)"
| "well_formed_element (JElement w1 v w2) =
    (is_spaces w1 \<and> well_formed v \<and> closed v \<and> is_spaces w2)"
| "well_formed_member (JMember w1 k w2 w3 v w4) =
    (is_spaces w1 \<and> CHR 0x22 \<notin> set k \<and> is_spaces w2 \<and> is_spaces w3 \<and> well_formed v \<and> closed v \<and>
     is_spaces w4)"

text \<open>
  The bytes \<open>extra\<close> behind a value do not continue its last token: behind an integer they do
  not begin with a digit, a point or an exponent marker, behind a fraction not with a digit.
  Behind every other value they are arbitrary. The first byte is read with \<open>cur\<close>, which is
  NUL at the end of the content.
\<close>

fun delimited :: "jsyntax \<Rightarrow> string \<Rightarrow> bool" where
  "delimited (JInt sg ds) extra =
    (\<not> isdigit (cur extra) \<and> cur extra \<noteq> CHR ''.'' \<and> cur extra \<noteq> CHR ''e'' \<and> cur extra \<noteq> CHR ''E'')"
| "delimited (JFrac sg ds fs) extra = (\<not> isdigit (cur extra))"
| "delimited v extra = True"

subsection \<open>Node accessors: basic facts\<close>

lemma fields_set_type [simp]:
  "mapJson (set_type t n) = mapJson n" "vectorJson (set_type t n) = vectorJson n"
  "value' (set_type t n) = value' n" "type (set_type t n) = t"
  by (simp_all add: set_type_def)

lemma fields_set_value [simp]:
  "mapJson (set_value s n) = mapJson n" "vectorJson (set_value s n) = vectorJson n"
  "value' (set_value s n) = s" "type (set_value s n) = type n"
  by (simp_all add: set_value_def)

lemma fields_set_vectorJson [simp]:
  "mapJson (set_vectorJson v n) = mapJson n" "vectorJson (set_vectorJson v n) = v"
  "value' (set_vectorJson v n) = value' n" "type (set_vectorJson v n) = type n"
  by (simp_all add: set_vectorJson_def)

lemma fields_set_mapJson [simp]:
  "mapJson (set_mapJson m n) = m" "vectorJson (set_mapJson m n) = vectorJson n"
  "value' (set_mapJson m n) = value' n" "type (set_mapJson m n) = type n"
  by (simp_all add: set_mapJson_def)

lemma fields_default [simp]:
  "mapJson default_SJR = []" "vectorJson default_SJR = []"
  "value' default_SJR = []" "type default_SJR = OBJECT"
  by (simp_all add: default_SJR_def)

lemma resize_length [simp]: "length (resize k v) = k"
  by (simp add: resize_def)

lemma resize_grow: "resize (Suc k) (resize k v) = resize k v @ [default_SJR]"
proof -
  have "resize (Suc (length w)) w = w @ [default_SJR]" for w
    by (simp add: resize_def)
  from this [of "resize k v"] show ?thesis by simp
qed

lemma digit_char_values:
  "digit_char 0 = CHR ''0''" "digit_char 1 = CHR ''1''"
  "digit_char 2 = CHR ''2''" "digit_char 3 = CHR ''3''" "digit_char 4 = CHR ''4''"
  "digit_char 5 = CHR ''5''" "digit_char 6 = CHR ''6''" "digit_char 7 = CHR ''7''"
  "digit_char 8 = CHR ''8''" "digit_char 9 = CHR ''9''"
  by code_simp+

lemma to_string_bool_eq: "to_string_bool b = (if b then ''1'' else ''0'')"
  by (simp add: to_string_bool_def to_string_int_def string_of_int_def dec.simps digit_char_values)

lemma stoi_1: "stoi ''1'' = Inr 1"
  by (simp add: stoi_def isspace_def isdigit_def dec_val_def digit_val_def Let_def)

lemma isdigit_not_space: "isdigit c \<Longrightarrow> \<not> isspace c"
  by (auto simp: isdigit_def isspace_def)

lemma isdigit_not_sign: "isdigit c \<Longrightarrow> c \<noteq> CHR ''-'' \<and> c \<noteq> CHR ''+''"
  by (auto simp: isdigit_def)

lemma sign_not_space: "\<not> isspace CHR ''-''" "\<not> isspace CHR ''+''"
  by (simp_all add: isspace_def)

lemma sign_not_digit: "\<not> isdigit CHR ''-''" "\<not> isdigit CHR ''+''"
  by (simp_all add: isdigit_def)

lemma takeWhile_digits: 
  assumes "\<forall>c\<in>set ds. isdigit c" "rest = [] \<or> \<not> isdigit (hd rest)"
  shows "takeWhile isdigit (ds @ rest) = ds"
  using assms by (cases rest) (auto simp: takeWhile_append2 takeWhile_eq_all_conv)

lemma stoi_of_prefix:
  assumes ws: "\<forall>c\<in>set ws. isspace c" and sg: "sg \<in> {[], ''+'', ''-''}"
    and ds: "ds \<noteq> []" "\<forall>c\<in>set ds. isdigit c" and rest: "rest = [] \<or> \<not> isdigit (hd rest)"
    and lo: "- (2 ^ 31) \<le> (if sg = ''-'' then - dec_val ds else dec_val ds)"
    and hi: "(if sg = ''-'' then - dec_val ds else dec_val ds) \<le> 2 ^ 31 - 1"
  shows "stoi (ws @ sg @ ds @ rest) = Inr (if sg = ''-'' then - dec_val ds else dec_val ds)"
proof -
  obtain d ds' where dsc: "ds = d # ds'" using ds(1) by (cases ds) auto
  have d: "isdigit d" using ds(2) dsc by simp
  have tw: "takeWhile isdigit (ds @ rest) = ds" using takeWhile_digits ds(2) rest by blast
  have "\<not> isspace (hd (sg @ ds @ rest))" "sg @ ds @ rest \<noteq> []"
    using sg d dsc by (auto simp: isdigit_not_space sign_not_space)
  then have s1: "dropWhile isspace (ws @ sg @ ds @ rest) = sg @ ds @ rest"
    using ws by (cases "sg @ ds @ rest") (auto simp: dropWhile_append2 simp del: append_assoc)
  show ?thesis
    using sg
  proof (elim insertE emptyE)
    assume "sg = []"
    then show ?thesis using s1 tw lo hi d dsc ds(1) isdigit_not_sign [OF d]
      by (simp add: stoi_def Let_def)
  next
    assume "sg = ''+''"
    then show ?thesis using s1 tw lo hi ds(1)
      by (simp add: stoi_def Let_def)
  next
    assume "sg = ''-''"
    then show ?thesis using s1 tw lo hi ds(1)
      by (simp add: stoi_def Let_def)
  qed
qed

lemma stoi_Inr_D:
  assumes "stoi s = Inr v"
  defines "s1 \<equiv> dropWhile isspace s"
  defines "s2 \<equiv> (if s1 \<noteq> [] \<and> (hd s1 = CHR ''-'' \<or> hd s1 = CHR ''+'') then tl s1 else s1)"
  defines "w \<equiv> (if s1 \<noteq> [] \<and> hd s1 = CHR ''-'' then - dec_val (takeWhile isdigit s2)
                 else dec_val (takeWhile isdigit s2))"
  shows "takeWhile isdigit s2 \<noteq> [] \<and> - (2 ^ 31) \<le> w \<and> w \<le> 2 ^ 31 - 1"
proof -
  have eq: "stoi s = (if takeWhile isdigit s2 = [] then Inl invalid_argument
        else if w < - (2 ^ 31) \<or> 2 ^ 31 - 1 < w then Inl out_of_range else Inr w)"
    unfolding stoi_def Let_def s1_def s2_def w_def by (rule refl)
  show ?thesis
  proof (cases "takeWhile isdigit s2 = []")
    case True
    with eq assms(1) show ?thesis by simp
  next
    case False
    show ?thesis
    proof (cases "w < - (2 ^ 31) \<or> 2 ^ 31 - 1 < w")
      case True
      with eq False assms(1) show ?thesis by simp
    next
      case False
      with \<open>takeWhile isdigit s2 \<noteq> []\<close> show ?thesis by simp
    qed
  qed
qed

lemma stoi_prefix:
  assumes "stoi s = Inr v"
  shows "\<exists>ws sg ds rest.
       s = ws @ sg @ ds @ rest \<and> (\<forall>c\<in>set ws. isspace c) \<and> sg \<in> {[], ''+'', ''-''} \<and>
       ds \<noteq> [] \<and> (\<forall>c\<in>set ds. isdigit c) \<and> (rest = [] \<or> \<not> isdigit (hd rest)) \<and>
       - (2 ^ 31) \<le> (if sg = ''-'' then - dec_val ds else dec_val ds) \<and>
       (if sg = ''-'' then - dec_val ds else dec_val ds) \<le> 2 ^ 31 - 1"
proof -
  define s1 where "s1 = dropWhile isspace s"
  define sg where "sg = (if s1 \<noteq> [] \<and> (hd s1 = CHR ''-'' \<or> hd s1 = CHR ''+'') then [hd s1] else [])"
  define s2 where "s2 = (if s1 \<noteq> [] \<and> (hd s1 = CHR ''-'' \<or> hd s1 = CHR ''+'') then tl s1 else s1)"
  define ds where "ds = takeWhile isdigit s2"
  define rest where "rest = dropWhile isdigit s2"
  have a: "s = takeWhile isspace s @ s1" unfolding s1_def by simp
  have b: "s1 = sg @ s2" unfolding sg_def s2_def by simp
  have c: "s2 = ds @ rest" unfolding ds_def rest_def by simp
  have s: "s = takeWhile isspace s @ sg @ ds @ rest" using a b c by simp
  have neg: "(s1 \<noteq> [] \<and> hd s1 = CHR ''-'') = (sg = ''-'')"
    unfolding sg_def by auto
  have sgm: "sg \<in> {[], ''+'', ''-''}" unfolding sg_def by auto
  have r: "rest = [] \<or> \<not> isdigit (hd rest)"
    unfolding rest_def by (metis hd_dropWhile)
  have dd: "\<forall>c\<in>set ds. isdigit c" unfolding ds_def by (meson set_takeWhileD)
  have sp: "\<forall>c\<in>set (takeWhile isspace s). isspace c" by (meson set_takeWhileD)
  have "ds \<noteq> [] \<and> - (2 ^ 31) \<le> (if sg = ''-'' then - dec_val ds else dec_val ds) \<and>
       (if sg = ''-'' then - dec_val ds else dec_val ds) \<le> 2 ^ 31 - 1"
    using stoi_Inr_D [OF assms] unfolding s1_def [symmetric] s2_def [symmetric] ds_def [symmetric] neg
    by simp
  then show ?thesis
    using s sgm r dd sp by blast
qed

lemma stoi_error: "stoi s = Inl e \<Longrightarrow> ValueTypeError e"
  by (auto simp: stoi_def Let_def ValueTypeError_def split: if_splits)

subsection \<open>The exponent loop\<close>

lemma scan_exponent_Some_D:
  assumes "scan_exponent file v = Some r"
  shows "\<not> isdigit (cur file)"
  by (rule scan_exponent.raw_induct [where P = "\<lambda>f v r. \<not> isdigit (cur f)", OF _ assms])
     (auto split: if_splits)

lemma scan_exponent_diverges: "isdigit (cur file) \<Longrightarrow> scan_exponent file v = None"
  using scan_exponent_Some_D by (cases "scan_exponent file v") auto

lemma scan_exponent_returns: "\<not> isdigit (cur file) \<Longrightarrow> scan_exponent file v = Some v"
  by (subst scan_exponent.simps) simp

lemma scan_digits_all:
  "\<forall>c\<in>set ds. isdigit c \<Longrightarrow> \<not> isdigit (cur rest) \<Longrightarrow>
   scan_digits v (ds @ rest) = (fst (scan_digits v ds), rest)"
proof (induction ds arbitrary: v)
  case Nil
  then show ?case by (cases rest) (auto simp: cur_def)
next
  case (Cons d ds)
  then show ?case by simp
qed

lemma isdigit_simps [simp]:
  "\<not> isdigit CHR ''e''" "\<not> isdigit CHR ''E''" "\<not> isdigit CHR ''.''" "\<not> isdigit CHR ''-''"
  "\<not> isdigit CHR ''+''" "\<not> isdigit CHR 0x00"
  by (simp_all add: isdigit_def)

subsection \<open>Evaluating the parser and the serializer on concrete inputs\<close>

lemma dec_digits:
  "dec 0 = ''0''" "dec 1 = ''1''" "dec 2 = ''2''" "dec 3 = ''3''"
  by code_simp+

lemmas eval_simps = cur_def skipWhiteSpace_def isspace_def isdigit_def memcmp_eq_def
  parseBool_def parseString_def parseNumber_def scan_string.simps scan_key.simps Let_def
  digit_val_def load_def quoted_def to_string_bool_eq to_string_int_def string_of_int_def
  set_type_def set_value_def set_mapJson_def set_vectorJson_def default_SJR_def dec_digits
  parse.simps parseArray.simps parseArray_loop.simps parseObject.simps parseObject_loop.simps
  parseObject_entry.simps

lemmas write_simps = save_def put_def writeTabs_def quoted_def newline_def tab_def
  string_of_int_def dec_digits stoi_1

lemma float_2_5:
  "to_string_double
     (fp_mul round64 (fraction_step (float_of_int 2) (Suc 0) CHR ''5'') (sign_factor False)) =
   ''2.500000''"
  by code_simp

lemma stof_2_5: "stof ''2.500000'' = Inr (Finite False (5 / 2))"
  by code_simp

lemma put_float_2_5: "put_float (Finite False (5 / 2)) = ''2.5''"
  by code_simp

subsection \<open>The ordering invariant\<close>

lemma map_sorted_Nil [simp]: "map_sorted []"
  by (simp add: map_sorted_def)











lemma map_assign_insort:
  "map_sorted m \<Longrightarrow> k \<notin> set (map fst m) \<Longrightarrow> map fst (map_assign k v m) = insort k (map fst m)"
  unfolding map_sorted_def
  by (induction k v m rule: map_assign.induct) auto




subsection \<open>Invariants of the parser\<close>












subsection \<open>Literals followed by arbitrary bytes\<close>

lemma skipWhiteSpace_prefix:
  "\<forall>c\<in>set ws. isspace c \<Longrightarrow> skipWhiteSpace (ws @ f) = skipWhiteSpace f"
  by (simp add: skipWhiteSpace_def dropWhile_append2)

lemma parse_true_literal:
  assumes "\<forall>c\<in>set ws. isspace c"
  shows "parse n (ws @ ''true'' @ extra) = Returned (True, set_type BOOL (set_value ''1'' n), extra)"
proof -
  have "skipWhiteSpace (ws @ ''true'' @ extra) = ''true'' @ extra"
    using skipWhiteSpace_prefix [OF assms, of "''true'' @ extra"]
    by (simp add: skipWhiteSpace_def isspace_def)
  then show ?thesis
    by (simp add: parse.simps parseString_def cur_def parseBool_def memcmp_eq_def Let_def
        to_string_bool_eq)
qed

lemma parse_false_literal:
  assumes "\<forall>c\<in>set ws. isspace c"
  shows "parse n (ws @ ''false'' @ extra) = Returned (True, set_type BOOL (set_value ''0'' n), extra)"
proof -
  have "skipWhiteSpace (ws @ ''false'' @ extra) = ''false'' @ extra"
    using skipWhiteSpace_prefix [OF assms, of "''false'' @ extra"]
    by (simp add: skipWhiteSpace_def isspace_def)
  then show ?thesis
    by (simp add: parse.simps parseString_def cur_def parseBool_def memcmp_eq_def Let_def
        to_string_bool_eq)
qed

subsection \<open>Well-formed values followed by arbitrary bytes\<close>

text \<open>The cursor and white space; then the loops of \<^verbatim>\<open>parseString\<close> and of the key scan on
  a literal without quote, and \<^verbatim>\<open>parseNumber\<close> on a run of digits.\<close>

lemma is_spacesD: "is_spaces ws \<Longrightarrow> \<forall>c\<in>set ws. isspace c"
  by (simp add: is_spaces_def list_all_iff)

lemma cur_Cons [simp]: "cur (c # f) = c"
  by (simp add: cur_def)

lemma cur_Nil [simp]: "cur [] = CHR 0x00"
  by (simp add: cur_def)

lemma cur_append: "xs \<noteq> [] \<Longrightarrow> cur (xs @ f) = hd xs"
  by (cases xs) simp_all

lemma skip_spaces:
  "is_spaces ws \<Longrightarrow> \<not> isspace (cur f) \<Longrightarrow> skipWhiteSpace (ws @ f) = f"
  using skipWhiteSpace_prefix [OF is_spacesD, of ws f]
  by (cases f) (simp_all add: skipWhiteSpace_def)

lemma skip_none: "\<not> isspace (cur f) \<Longrightarrow> skipWhiteSpace f = f"
  by (cases f) (simp_all add: skipWhiteSpace_def)

lemma cur_spaces:
  "is_spaces ws \<Longrightarrow> \<not> isspace c \<Longrightarrow> cur f \<noteq> c \<Longrightarrow> cur (ws @ f) \<noteq> c"
  by (cases ws) (auto simp: is_spaces_def)

lemma set_value_same [simp]: "set_value (value' n) n = n"
  by (cases n) (simp add: set_value_def)

lemma quote_not_space [simp]: "\<not> isspace CHR 0x22"
  by (simp add: isspace_def)

lemma skip_quote:
  "skipWhiteSpace (cs @ CHR 0x22 # extra) = dropWhile isspace cs @ CHR 0x22 # extra"
  by (simp add: skipWhiteSpace_def dropWhile_append)

lemma scan_string_literal:
  "CHR 0x22 \<notin> set cs \<Longrightarrow>
   scan_string n (cs @ CHR 0x22 # extra) =
     Returned (True, set_value (value' n @ filter (\<lambda>c. \<not> isspace c) cs) n,
       if cs = [] \<or> \<not> isspace (last cs) then extra else CHR 0x22 # extra)"
proof (induction "length cs" arbitrary: cs n rule: less_induct)
  case less
  show ?case
  proof (cases cs)
    case Nil
    then show ?thesis by (simp add: scan_string.simps [of n])
  next
    case (Cons c cs0)
    with less.prems have nq: "cur (cs @ CHR 0x22 # extra) \<noteq> CHR 0x22" by auto
    show ?thesis
    proof (cases "dropWhile isspace cs")
      case Nil
      then have all: "\<forall>x\<in>set cs. isspace x" by (simp add: dropWhile_eq_Nil_conv)
      then have fl: "filter (\<lambda>c. \<not> isspace c) cs = []" by (auto simp: filter_empty_conv)
      have "last cs \<in> set cs" using Cons by simp
      with all have l: "isspace (last cs)" by blast
      have ne: "cs \<noteq> []" using Cons by simp
      show ?thesis using nq
        by (subst scan_string.simps) (simp add: skip_quote Let_def Nil fl l ne)
    next
      case (Cons d cs')
      note d = this
      have dns: "\<not> isspace d" using d by (metis hd_dropWhile list.sel(1) list.distinct(1))
      have "d \<in> set cs" using d by (metis list.set_intros(1) set_dropWhileD)
      with less.prems have dq: "d \<noteq> CHR 0x22" by auto
      have split: "cs = takeWhile isspace cs @ d # cs'" using d by (metis takeWhile_dropWhile_id)
      have len: "length cs' < length cs"
        using length_dropWhile_le [of isspace cs] d by simp
      have q': "CHR 0x22 \<notin> set cs'"
        using less.prems(1) split by (metis Un_iff list.set_intros(2) set_append)
      have ne: "cs \<noteq> []" using d by auto
      have l': "(cs' = [] \<or> \<not> isspace (last cs')) = (\<not> isspace (last cs))"
      proof (cases "cs' = []")
        case True
        then have "last cs = d" using split by (metis last_snoc)
        with True dns show ?thesis by simp
      next
        case False
        then have "last cs = last cs'"
          using split by (metis last_ConsR last_appendR list.distinct(1))
        with False show ?thesis by simp
      qed
      have fl: "filter (\<lambda>c. \<not> isspace c) cs = d # filter (\<lambda>c. \<not> isspace c) cs'"
      proof -
        have "filter (\<lambda>c. \<not> isspace c) (takeWhile isspace cs) = []"
          by (auto simp: filter_empty_conv dest: set_takeWhileD)
        then show ?thesis using dns by (subst split) simp
      qed
      have "scan_string n (cs @ CHR 0x22 # extra) =
          scan_string (set_value (value' n @ [d]) n) (cs' @ CHR 0x22 # extra)"
        using nq dq d by (subst scan_string.simps) (simp add: skip_quote Let_def)
      also have "\<dots> = Returned (True, set_value (value' (set_value (value' n @ [d]) n) @
            filter (\<lambda>c. \<not> isspace c) cs') (set_value (value' n @ [d]) n),
            if cs' = [] \<or> \<not> isspace (last cs') then extra else CHR 0x22 # extra)"
        by (rule less.hyps [OF len q'])
      finally show ?thesis by (simp add: fl set_value_def l' ne)
    qed
  qed
qed

lemma scan_key_literal:
  "CHR 0x22 \<notin> set k \<Longrightarrow>
   scan_key k0 (k @ CHR 0x22 # rest) = Some (k0 @ filter (\<lambda>c. \<not> isspace c) k, CHR 0x22 # rest)"
proof (induction "length k" arbitrary: k k0 rule: less_induct)
  case less
  show ?case
  proof (cases k)
    case Nil
    then show ?thesis by (simp add: scan_key.simps [of k0])
  next
    case (Cons c k1)
    with less.prems have nq: "cur (k @ CHR 0x22 # rest) \<noteq> CHR 0x22" by auto
    show ?thesis
    proof (cases "dropWhile isspace k")
      case Nil
      then have "filter (\<lambda>c. \<not> isspace c) k = []"
        by (auto simp: filter_empty_conv dropWhile_eq_Nil_conv)
      with nq show ?thesis
        by (subst scan_key.simps) (simp add: skip_quote Let_def Nil)
    next
      case (Cons d k')
      note d = this
      have dns: "\<not> isspace d" using d by (metis hd_dropWhile list.sel(1) list.distinct(1))
      have "d \<in> set k" using d by (metis list.set_intros(1) set_dropWhileD)
      with less.prems have dq: "d \<noteq> CHR 0x22" by auto
      have split: "k = takeWhile isspace k @ d # k'" using d by (metis takeWhile_dropWhile_id)
      have len: "length k' < length k"
        using length_dropWhile_le [of isspace k] d by simp
      have q': "CHR 0x22 \<notin> set k'" using less.prems(1) split by (metis Un_iff list.set_intros(2) set_append)
      have fl: "filter (\<lambda>c. \<not> isspace c) k = d # filter (\<lambda>c. \<not> isspace c) k'"
      proof -
        have "filter (\<lambda>c. \<not> isspace c) (takeWhile isspace k) = []"
          by (auto simp: filter_empty_conv dest: set_takeWhileD)
        then show ?thesis using dns by (subst split) simp
      qed
      have "scan_key k0 (k @ CHR 0x22 # rest) = scan_key (k0 @ [d]) (k' @ CHR 0x22 # rest)"
        using nq dq d by (subst scan_key.simps) (simp add: skip_quote Let_def)
      also have "\<dots> = Some ((k0 @ [d]) @ filter (\<lambda>c. \<not> isspace c) k', CHR 0x22 # rest)"
        by (rule less.hyps [OF len q'])
      finally show ?thesis by (simp add: fl)
    qed
  qed
qed

lemma scan_fraction_all:
  "\<forall>c\<in>set fs. isdigit c \<Longrightarrow> \<not> isdigit (cur rest) \<Longrightarrow>
   scan_fraction v k (fs @ rest) = (fst (scan_fraction v k fs), rest)"
proof (induction fs arbitrary: v k)
  case Nil
  then show ?case by (cases rest) (auto simp: cur_def)
next
  case (Cons d ds)
  then show ?case by simp
qed

lemma is_digitsD: "is_digits ds \<Longrightarrow> ds \<noteq> [] \<and> (\<forall>c\<in>set ds. isdigit c) \<and> isdigit (hd ds)"
  by (cases ds) (auto simp: is_digits_def list_all_iff)

lemma parseNumber_int:
  assumes "is_sign sg" "is_digits ds" "delimited (JInt sg ds) extra"
  shows "parseNumber n (sg @ ds @ extra) =
    Returned (True, set_value (to_string_int (fst (scan_digits 0 ds) * (if sg = ''-'' then - 1 else 1)))
      (set_type INT' n), extra)"
proof -
  from is_digitsD [OF assms(2)] obtain d ds' where ds: "ds = d # ds'" and d: "isdigit d"
    and all: "\<forall>c\<in>set ds. isdigit c" by (cases ds) auto
  have dsg: "d \<noteq> CHR ''-''" "d \<noteq> CHR ''+''" using isdigit_not_sign [OF d] by simp_all
  from assms(3) have ex: "\<not> isdigit (cur extra)" "cur extra \<noteq> CHR ''.''" "cur extra \<noteq> CHR ''e''"
    "cur extra \<noteq> CHR ''E''" by simp_all
  have sd: "scan_digits 0 (ds @ extra) = (fst (scan_digits 0 ds), extra)"
    by (rule scan_digits_all [OF all ex(1)])
  from assms(1) consider "sg = []" | "sg = ''+''" | "sg = ''-''" by (auto simp: is_sign_def)
  then show ?thesis
  proof cases
    case 1
    have c: "cur (ds @ extra) = d" by (simp add: ds)
    show ?thesis unfolding 1 parseNumber_def using sd ex d dsg
      by (simp add: c Let_def)
  next
    case 2
    show ?thesis unfolding 2 parseNumber_def using sd ex
      by (simp add: Let_def)
  next
    case 3
    show ?thesis unfolding 3 parseNumber_def using sd ex
      by (simp add: Let_def)
  qed
qed

lemma parseNumber_frac:
  assumes "is_sign sg" "is_digits ds" "is_digits fs" "\<not> isdigit (cur extra)"
  shows "parseNumber n (sg @ ds @ ''.'' @ fs @ extra) =
    Returned (True,
      set_value (to_string_double (fp_mul round64
          (fst (scan_fraction (float_of_int (sint (fst (scan_digits 0 ds)))) 1 fs))
          (sign_factor (sg = ''-''))))
        (set_type FLOAT n), extra)"
proof -
  from is_digitsD [OF assms(2)] obtain d ds' where ds: "ds = d # ds'" and d: "isdigit d"
    and all: "\<forall>c\<in>set ds. isdigit c" by (cases ds) auto
  have dsg: "d \<noteq> CHR ''-''" "d \<noteq> CHR ''+''" using isdigit_not_sign [OF d] by simp_all
  have sd: "scan_digits 0 (ds @ ''.'' @ fs @ extra) = (fst (scan_digits 0 ds), ''.'' @ fs @ extra)"
    by (rule scan_digits_all [OF all]) simp
  have sf: "\<And>v. scan_fraction v 1 (fs @ extra) = (fst (scan_fraction v 1 fs), extra)"
    using scan_fraction_all is_digitsD [OF assms(3)] assms(4) by blast
  from assms(1) consider "sg = []" | "sg = ''+''" | "sg = ''-''" by (auto simp: is_sign_def)
  then show ?thesis
  proof cases
    case 1
    have c: "cur (ds @ CHR ''.'' # fs @ extra) = d" by (simp add: ds)
    show ?thesis unfolding 1 parseNumber_def using sd sf d dsg
      by (simp add: c Let_def)
  next
    case 2
    show ?thesis unfolding 2 parseNumber_def using sd sf
      by (simp add: Let_def)
  next
    case 3
    show ?thesis unfolding 3 parseNumber_def using sd sf
      by (simp add: Let_def)
  qed
qed


text \<open>\<^verbatim>\<open>parse\<close> tries the five parsers in turn; the first byte of a value selects one.\<close>

lemma memcmp_head: "lit \<noteq> [] \<Longrightarrow> cur f \<noteq> hd lit \<Longrightarrow> \<not> memcmp_eq f lit"
  by (cases f; cases lit) (auto simp: memcmp_eq_def)

lemma parseBool_fail:
  "cur f \<noteq> CHR ''t'' \<Longrightarrow> cur f \<noteq> CHR ''f'' \<Longrightarrow> parseBool n f = (False, n, f)"
  using memcmp_head [of "''true''" f] memcmp_head [of "''false''" f]
  by (simp add: parseBool_def)

lemma parseString_fail: "cur f \<noteq> CHR 0x22 \<Longrightarrow> parseString n f = Returned (False, n, f)"
  by (simp add: parseString_def)

lemma parseNumber_fail:
  "cur f \<noteq> CHR ''-'' \<Longrightarrow> cur f \<noteq> CHR ''+'' \<Longrightarrow> \<not> isdigit (cur f) \<Longrightarrow>
   parseNumber n f = Returned (False, n, f)"
  by (simp add: parseNumber_def)

lemma parse_skip: "is_spaces ws \<Longrightarrow> parse n (ws @ f) = parse n f"
  using skipWhiteSpace_prefix [OF is_spacesD, of ws f]
  by (simp add: parse.simps)

lemma parse_string_literal:
  assumes "CHR 0x22 \<notin> set cs"
  shows "parse n (quoted cs @ extra) =
    Returned (True, set_value (value' n @ filter (\<lambda>c. \<not> isspace c) cs) (set_type STRING n),
      unread (JString cs) @ extra)"
proof -
  have "skipWhiteSpace (quoted cs @ extra) = quoted cs @ extra"
    by (rule skip_none) (simp add: quoted_def)
  then show ?thesis
    using scan_string_literal [OF assms, of "set_type STRING n" extra]
    by (simp add: parse.simps parseString_def quoted_def unread_def)
qed

lemma number_head:
  assumes "is_sign sg" "is_digits ds"
  shows "\<exists>c r. sg @ ds @ x = c # r \<and> (c = CHR ''-'' \<or> c = CHR ''+'' \<or> isdigit c)"
proof -
  from is_digitsD [OF assms(2)] obtain d ds' where "ds = d # ds'" "isdigit d" by (cases ds) auto
  with assms(1) show ?thesis by (auto simp: is_sign_def)
qed

lemma number_char:
  assumes "c = CHR ''-'' \<or> c = CHR ''+'' \<or> isdigit c"
  shows "\<not> isspace c" "c \<noteq> CHR 0x22" "c \<noteq> CHR ''t''" "c \<noteq> CHR ''f''" "c \<noteq> CHR '']''"
    "c \<noteq> CHR ''}''" "c \<noteq> CHR '',''"
  using assms by (auto simp: isspace_def isdigit_def)

lemma parse_number:
  assumes "is_sign sg" "is_digits ds"
  shows "parse n (sg @ ds @ x) = parseNumber n (sg @ ds @ x)"
proof -
  from number_head [OF assms, of x] obtain c r where
    c: "sg @ ds @ x = c # r" "c = CHR ''-'' \<or> c = CHR ''+'' \<or> isdigit c" by blast
  note nc = number_char [OF c(2)]
  have s: "skipWhiteSpace (c # r) = c # r" by (rule skip_none) (simp add: nc)
  have "parse n (c # r) = parseNumber n (c # r)"
  proof (cases "parseNumber n (c # r)")
    case (Returned res)
    obtain b n' f' where res: "res = (b, n', f')" by (cases res)
    have "b" using Returned res c(2)
      by (auto simp: parseNumber_def Let_def split: prod.splits option.splits if_splits)
    with Returned res show ?thesis
      by (simp add: parse.simps s parseString_fail nc parseBool_fail)
  qed (simp_all add: parse.simps s parseString_fail nc parseBool_fail)
  then show ?thesis by (simp add: c(1))
qed

lemma parse_array:
  "parseArray_loop (set_type ARRAY n) f = Returned (True, n', f') \<Longrightarrow>
   parse n (CHR ''['' # f) = Returned (True, n', f')"
  by (simp add: parse.simps skip_none isspace_def parseString_fail parseBool_fail parseNumber_fail
      isdigit_def parseArray.simps)

lemma parse_object:
  "parse n (CHR ''{'' # f) = parseObject_loop (set_type OBJECT n) f"
  by (simp add: parse.simps skip_none isspace_def parseString_fail parseBool_fail parseNumber_fail
      isdigit_def parseArray.simps parseObject.simps)


text \<open>One pass of the loop of \<^verbatim>\<open>parseArray\<close> and of \<^verbatim>\<open>parseObject\<close>, and the loops on a
  list of well-formed elements or members whose values are parsed completely.\<close>

lemma text_of_head:
  "well_formed v \<Longrightarrow>
   \<not> isspace (cur (text_of v @ x)) \<and> cur (text_of v @ x) \<noteq> CHR '']'' \<and>
   cur (text_of v @ x) \<noteq> CHR ''}'' \<and> cur (text_of v @ x) \<noteq> CHR '',''"
proof (cases v)
  case (JInt sg ds)
  assume "well_formed v"
  with JInt number_head [of sg ds x] obtain c r where
    "sg @ ds @ x = c # r" "c = CHR ''-'' \<or> c = CHR ''+'' \<or> isdigit c" by auto
  with JInt number_char [OF this(2)] show ?thesis by simp
next
  case (JFrac sg ds fs)
  assume "well_formed v"
  with JFrac number_head [of sg ds "''.'' @ fs @ x"] obtain c r where
    "sg @ ds @ ''.'' @ fs @ x = c # r" "c = CHR ''-'' \<or> c = CHR ''+'' \<or> isdigit c" by auto
  with JFrac number_char [OF this(2)] show ?thesis by simp
qed (simp_all add: quoted_def isspace_def)

lemma delimited_separator:
  assumes "is_spaces w" "cur more = CHR '','' \<or> cur more = CHR '']'' \<or> cur more = CHR ''}''"
  shows "delimited v (w @ more)"
proof -
  have "isspace (cur (w @ more)) \<or> cur (w @ more) = cur more"
    using assms(1) by (cases w) (auto simp: is_spaces_def)
  then have "\<not> isdigit (cur (w @ more)) \<and> cur (w @ more) \<noteq> CHR ''.'' \<and>
      cur (w @ more) \<noteq> CHR ''e'' \<and> cur (w @ more) \<noteq> CHR ''E''"
    using assms(2) by (auto simp: isspace_def isdigit_def)
  then show ?thesis by (cases v) simp_all
qed

lemma parseArray_loop_empty:
  "is_spaces ws \<Longrightarrow> parseArray_loop n (ws @ CHR '']'' # extra) = Returned (True, n, extra)"
  using skip_spaces [of ws "CHR '']'' # extra"]
  by (subst parseArray_loop.simps) (cases ws; auto simp: isspace_def is_spaces_def Let_def)

lemma parseObject_loop_empty:
  "is_spaces ws \<Longrightarrow> parseObject_loop n (ws @ CHR ''}'' # extra) = Returned (True, n, extra)"
  using skip_spaces [of ws "CHR ''}'' # extra"]
  by (subst parseObject_loop.simps) (cases ws; auto simp: isspace_def is_spaces_def Let_def)

lemma parseArray_loop_step:
  assumes W: "is_spaces W" and w2: "is_spaces w2"
    and t: "\<not> isspace (cur t)" "cur t \<noteq> CHR '']''"
    and p: "parse default_SJR t = Returned (True, nv, w2 @ more)"
    and m: "\<not> isspace (cur more)"
  shows "parseArray_loop n (W @ t) =
     (if cur more = CHR '']''
      then Returned (True, set_type ARRAY (set_vectorJson (vectorJson n @ [nv]) n), tl more)
      else if cur more \<noteq> CHR '','' then Returned (False, set_vectorJson (vectorJson n @ [nv]) n, more)
      else parseArray_loop (set_vectorJson (vectorJson n @ [nv]) n) (tl more))"
proof -
  have c1: "cur (W @ t) \<noteq> CHR '']''"
    by (rule cur_spaces [OF W _ t(2)]) (simp add: isspace_def)
  have s1: "skipWhiteSpace (W @ t) = t" by (rule skip_spaces [OF W t(1)])
  have s2: "skipWhiteSpace (w2 @ more) = more" by (rule skip_spaces [OF w2 m])
  show ?thesis
    by (subst parseArray_loop.simps) (simp add: c1 s1 t p s2 Let_def)
qed

lemma parseObject_loop_step:
  assumes W: "is_spaces W" and w: "is_spaces w2" "is_spaces w3" "is_spaces w4"
    and k: "CHR 0x22 \<notin> set k"
    and t: "\<not> isspace (cur (tv @ w4 @ more))"
    and p: "parse default_SJR (tv @ w4 @ more) = Returned (True, nv, w4 @ more)"
    and m: "\<not> isspace (cur more)"
  shows "parseObject_loop n (W @ quoted k @ w2 @ '':'' @ w3 @ tv @ w4 @ more) =
     (if cur more = CHR ''}''
      then Returned (True, set_mapJson (map_assign (filter (\<lambda>c. \<not> isspace c) k) nv (mapJson n))
                             (set_type OBJECT n), tl more)
      else if cur more \<noteq> CHR '',''
      then Returned (False, set_mapJson (map_assign (filter (\<lambda>c. \<not> isspace c) k) nv (mapJson n))
                              (set_type OBJECT n), more)
      else parseObject_loop (set_mapJson (map_assign (filter (\<lambda>c. \<not> isspace c) k) nv (mapJson n))
                              (set_type OBJECT n)) (tl more))"
proof -
  let ?r2 = "CHR '':'' # w3 @ tv @ w4 @ more"
  let ?r1 = "k @ CHR 0x22 # w2 @ ?r2"
  have f: "W @ quoted k @ w2 @ '':'' @ w3 @ tv @ w4 @ more = W @ CHR 0x22 # ?r1"
    by (simp add: quoted_def)
  have c1: "cur (W @ CHR 0x22 # ?r1) \<noteq> CHR ''}''"
    by (rule cur_spaces [OF W]) (simp_all add: isspace_def)
  have s1: "skipWhiteSpace (W @ CHR 0x22 # ?r1) = CHR 0x22 # ?r1"
    by (rule skip_spaces [OF W]) simp
  have sk: "scan_key [] ?r1 = Some (filter (\<lambda>c. \<not> isspace c) k, CHR 0x22 # w2 @ ?r2)"
    using scan_key_literal [OF k, of "[]" "w2 @ ?r2"] by simp
  have s2: "skipWhiteSpace (w2 @ ?r2) = ?r2"
    by (rule skip_spaces [OF w(1)]) (simp add: isspace_def)
  have s3: "skipWhiteSpace (w3 @ tv @ w4 @ more) = tv @ w4 @ more"
    by (rule skip_spaces [OF w(2) t])
  have s4: "skipWhiteSpace (w4 @ more) = more" by (rule skip_spaces [OF w(3) m])
  have e: "parseObject_entry n ?r1 =
      Next (set_mapJson (map_assign (filter (\<lambda>c. \<not> isspace c) k) nv (mapJson n)) (set_type OBJECT n))
        (w4 @ more)"
    by (subst parseObject_entry.simps) (simp add: sk s2 s3 p Let_def)
  show ?thesis unfolding f
    by (subst parseObject_loop.simps) (simp add: c1 s1 e s4 Let_def)
qed

lemma joined_Cons: "xs \<noteq> [] \<Longrightarrow> joined (x # xs) = x @ CHR '','' # joined xs"
  by (cases xs) simp_all

lemma parseArray_loop_elements:
  assumes "list_all well_formed_element es"
    and "\<And>w1 v w2. JElement w1 v w2 \<in> set es \<Longrightarrow>
           \<exists>nv. \<forall>x. delimited v x \<longrightarrow> parse default_SJR (text_of v @ x) = Returned (True, nv, x)"
    and "es \<noteq> []" "is_spaces W"
  shows "\<exists>n'. \<forall>extra. parseArray_loop n (W @ joined (map element_text es) @ CHR '']'' # extra) =
           Returned (True, n', extra)"
  using assms
proof (induction es arbitrary: n W)
  case Nil
  then show ?case by simp
next
  case (Cons e es)
  obtain w1 v w2 where e: "e = JElement w1 v w2" by (cases e)
  from Cons.prems(1) e have wf: "is_spaces w1" "well_formed v" "is_spaces w2" by simp_all
  from Cons.prems(2) [of w1 v w2] e obtain nv where
    nv: "\<And>x. delimited v x \<Longrightarrow> parse default_SJR (text_of v @ x) = Returned (True, nv, x)"
    by auto
  define n1 where "n1 = set_vectorJson (vectorJson n @ [nv]) n"
  have Ww: "is_spaces (W @ w1)" using Cons.prems(4) wf(1) by (simp add: is_spaces_def)
  have step: "parseArray_loop n (W @ element_text e @ more) =
      (if cur more = CHR '']'' then Returned (True, set_type ARRAY n1, tl more)
       else parseArray_loop n1 (tl more))"
    if m: "cur more = CHR '','' \<or> cur more = CHR '']''" for more
  proof -
    have d: "delimited v (w2 @ more)" using delimited_separator [OF wf(3)] m by blast
    have ms: "\<not> isspace (cur more)" using m by (auto simp: isspace_def)
    from text_of_head [OF wf(2), of "w2 @ more"]
    have h: "\<not> isspace (cur (text_of v @ w2 @ more))" "cur (text_of v @ w2 @ more) \<noteq> CHR '']''"
      by simp_all
    from parseArray_loop_step [OF Ww wf(3) h nv [OF d] ms, of n] m
    show ?thesis by (auto simp: e n1_def)
  qed
  show ?case
  proof (cases "es = []")
    case True
    have "parseArray_loop n (W @ joined (map element_text (e # es)) @ CHR '']'' # extra) =
        Returned (True, set_type ARRAY n1, extra)" for extra
      using step [of "CHR '']'' # extra"] True by simp
    then show ?thesis by blast
  next
    case False
    have wfs: "list_all well_formed_element es" using Cons.prems(1) by simp
    have sp: "is_spaces []" by (simp add: is_spaces_def)
    have "\<exists>n'. \<forall>extra. parseArray_loop n1 ([] @ joined (map element_text es) @ CHR '']'' # extra) =
        Returned (True, n', extra)"
    proof (rule Cons.IH [OF wfs _ False sp])
      fix w1 v w2
      assume "JElement w1 v w2 \<in> set es"
      then show "\<exists>nv. \<forall>x. delimited v x \<longrightarrow> parse default_SJR (text_of v @ x) = Returned (True, nv, x)"
        using Cons.prems(2) [of w1 v w2] by simp
    qed
    then
    obtain n' where n': "\<And>extra. parseArray_loop n1 (joined (map element_text es) @ CHR '']'' # extra) =
        Returned (True, n', extra)" by auto
    have j: "joined (element_text e # map element_text es) = element_text e @ CHR '','' # joined (map element_text es)"
      using False by (simp add: joined_Cons)
    have "parseArray_loop n (W @ joined (map element_text (e # es)) @ CHR '']'' # extra) =
        Returned (True, n', extra)" for extra
      using step [of "CHR '','' # joined (map element_text es) @ CHR '']'' # extra"] n' [of extra]
      by (simp add: j)
    then show ?thesis by blast
  qed
qed

lemma parseObject_loop_members:
  assumes "list_all well_formed_member ms"
    and "\<And>w1 k w2 w3 v w4. JMember w1 k w2 w3 v w4 \<in> set ms \<Longrightarrow>
           \<exists>nv. \<forall>x. delimited v x \<longrightarrow> parse default_SJR (text_of v @ x) = Returned (True, nv, x)"
    and "ms \<noteq> []" "is_spaces W"
  shows "\<exists>n'. \<forall>extra. parseObject_loop n (W @ joined (map member_text ms) @ CHR ''}'' # extra) =
           Returned (True, n', extra)"
  using assms
proof (induction ms arbitrary: n W)
  case Nil
  then show ?case by simp
next
  case (Cons e ms)
  obtain w1 k w2 w3 v w4 where e: "e = JMember w1 k w2 w3 v w4" by (cases e)
  from Cons.prems(1) e have wf: "is_spaces w1" "CHR 0x22 \<notin> set k" "is_spaces w2" "is_spaces w3"
    "well_formed v" "is_spaces w4" by simp_all
  from Cons.prems(2) [of w1 k w2 w3 v w4] e obtain nv where
    nv: "\<And>x. delimited v x \<Longrightarrow> parse default_SJR (text_of v @ x) = Returned (True, nv, x)"
    by auto
  define n1 where "n1 = set_mapJson (map_assign (filter (\<lambda>c. \<not> isspace c) k) nv (mapJson n))
                              (set_type OBJECT n)"
  have Ww: "is_spaces (W @ w1)" using Cons.prems(4) wf(1) by (simp add: is_spaces_def)
  have step: "parseObject_loop n (W @ member_text e @ more) =
      (if cur more = CHR ''}'' then Returned (True, n1, tl more)
       else parseObject_loop n1 (tl more))"
    if m: "cur more = CHR '','' \<or> cur more = CHR ''}''" for more
  proof -
    have d: "delimited v (w4 @ more)" using delimited_separator [OF wf(6)] m by blast
    have ms: "\<not> isspace (cur more)" using m by (auto simp: isspace_def)
    from text_of_head [OF wf(5), of "w4 @ more"]
    have h: "\<not> isspace (cur (text_of v @ w4 @ more))" by simp
    from parseObject_loop_step [OF Ww wf(3,4,6,2) h nv [OF d] ms, of n] m
    show ?thesis by (auto simp: e n1_def)
  qed
  show ?case
  proof (cases "ms = []")
    case True
    have "parseObject_loop n (W @ joined (map member_text (e # ms)) @ CHR ''}'' # extra) =
        Returned (True, n1, extra)" for extra
      using step [of "CHR ''}'' # extra"] True by simp
    then show ?thesis by blast
  next
    case False
    have wfs: "list_all well_formed_member ms" using Cons.prems(1) by simp
    have sp: "is_spaces []" by (simp add: is_spaces_def)
    have "\<exists>n'. \<forall>extra. parseObject_loop n1 ([] @ joined (map member_text ms) @ CHR ''}'' # extra) =
        Returned (True, n', extra)"
    proof (rule Cons.IH [OF wfs _ False sp])
      fix w1 k w2 w3 v w4
      assume "JMember w1 k w2 w3 v w4 \<in> set ms"
      then show "\<exists>nv. \<forall>x. delimited v x \<longrightarrow> parse default_SJR (text_of v @ x) = Returned (True, nv, x)"
        using Cons.prems(2) [of w1 k w2 w3 v w4] by simp
    qed
    then
    obtain n' where n': "\<And>extra. parseObject_loop n1 (joined (map member_text ms) @ CHR ''}'' # extra) =
        Returned (True, n', extra)" by auto
    have j: "joined (member_text e # map member_text ms) = member_text e @ CHR '','' # joined (map member_text ms)"
      using False by (simp add: joined_Cons)
    have "parseObject_loop n (W @ joined (map member_text (e # ms)) @ CHR ''}'' # extra) =
        Returned (True, n', extra)" for extra
      using step [of "CHR '','' # joined (map member_text ms) @ CHR ''}'' # extra"] n' [of extra]
      by (simp add: j)
    then show ?thesis by blast
  qed
qed

text \<open>Every well-formed value is parsed completely: the parser returns true with the cursor on
  the first byte behind the value, and the node it builds does not depend on the bytes behind
  the value.\<close>

lemma unread_simps [simp]:
  "unread (JBool b) = []" "unread (JInt sg ds) = []" "unread (JFrac sg ds fs) = []"
  "unread (JArray ws es) = []" "unread (JObject ws ms) = []"
  by (simp_all add: unread_def)

lemma unread_closed: "closed v \<Longrightarrow> unread v = []"
  by (simp add: unread_def)

lemma parse_well_formed_all:
  "well_formed v \<longrightarrow>
     (\<forall>n. \<exists>n'. \<forall>extra. delimited v extra \<longrightarrow>
        parse n (text_of v @ extra) = Returned (True, n', unread v @ extra))"
  and "case e of JElement w1 v w2 \<Rightarrow>
     well_formed v \<longrightarrow>
       (\<forall>n. \<exists>n'. \<forall>extra. delimited v extra \<longrightarrow>
          parse n (text_of v @ extra) = Returned (True, n', unread v @ extra))"
  and "case m of JMember w1 k w2 w3 v w4 \<Rightarrow>
     well_formed v \<longrightarrow>
       (\<forall>n. \<exists>n'. \<forall>extra. delimited v extra \<longrightarrow>
          parse n (text_of v @ extra) = Returned (True, n', unread v @ extra))"
proof (induction v and e and m)
  case (JBool b)
  show ?case
    using parse_true_literal [of "[]"] parse_false_literal [of "[]"] by (cases b) auto
next
  case (JInt sg ds)
  show ?case
  proof (intro impI allI)
    fix n
    assume wf: "well_formed (JInt sg ds)"
    then have w: "is_sign sg" "is_digits ds" by simp_all
    show "\<exists>n'. \<forall>extra. delimited (JInt sg ds) extra \<longrightarrow>
        parse n (text_of (JInt sg ds) @ extra) = Returned (True, n', unread (JInt sg ds) @ extra)"
      using parse_number [OF w] parseNumber_int [OF w] by auto
  qed
next
  case (JFrac sg ds fs)
  show ?case
  proof (intro impI allI)
    fix n
    assume wf: "well_formed (JFrac sg ds fs)"
    then have w: "is_sign sg" "is_digits ds" "is_digits fs" by simp_all
    show "\<exists>n'. \<forall>extra. delimited (JFrac sg ds fs) extra \<longrightarrow>
        parse n (text_of (JFrac sg ds fs) @ extra) =
          Returned (True, n', unread (JFrac sg ds fs) @ extra)"
      using parse_number [OF w(1,2)] parseNumber_frac [OF w] by auto
  qed
next
  case (JString cs)
  show ?case using parse_string_literal by auto
next
  case (JArray ws es)
  show ?case
  proof (intro impI allI)
    fix n
    assume wf: "well_formed (JArray ws es)"
    then have w: "is_spaces ws" "list_all well_formed_element es" by simp_all
    have ih: "\<exists>nv. \<forall>x. delimited v x \<longrightarrow> parse default_SJR (text_of v @ x) = Returned (True, nv, x)"
      if "JElement w1 v w2 \<in> set es" for w1 v w2
    proof -
      from w(2) that have "well_formed v" "closed v" by (auto simp: list_all_iff)
      with JArray [OF that] show ?thesis by (simp add: unread_closed)
    qed
    have "\<exists>n'. \<forall>extra. parseArray_loop (set_type ARRAY n)
        (ws @ joined (map element_text es) @ CHR '']'' # extra) = Returned (True, n', extra)"
    proof (cases "es = []")
      case True
      then show ?thesis using parseArray_loop_empty [OF w(1)] by auto
    next
      case False
      show ?thesis by (rule parseArray_loop_elements [OF w(2) ih False w(1)])
    qed
    then obtain n' where "\<And>extra. parseArray_loop (set_type ARRAY n)
        (ws @ joined (map element_text es) @ CHR '']'' # extra) = Returned (True, n', extra)"
      by blast
    from parse_array [OF this]
    show "\<exists>n'. \<forall>extra. delimited (JArray ws es) extra \<longrightarrow>
        parse n (text_of (JArray ws es) @ extra) = Returned (True, n', unread (JArray ws es) @ extra)"
      by auto
  qed
next
  case (JObject ws ms)
  show ?case
  proof (intro impI allI)
    fix n
    assume wf: "well_formed (JObject ws ms)"
    then have w: "is_spaces ws" "list_all well_formed_member ms" by simp_all
    have ih: "\<exists>nv. \<forall>x. delimited v x \<longrightarrow> parse default_SJR (text_of v @ x) = Returned (True, nv, x)"
      if "JMember w1 k w2 w3 v w4 \<in> set ms" for w1 k w2 w3 v w4
    proof -
      from w(2) that have "well_formed v" "closed v" by (auto simp: list_all_iff)
      with JObject [OF that] show ?thesis by (simp add: unread_closed)
    qed
    have "\<exists>n'. \<forall>extra. parseObject_loop (set_type OBJECT n)
        (ws @ joined (map member_text ms) @ CHR ''}'' # extra) = Returned (True, n', extra)"
    proof (cases "ms = []")
      case True
      then show ?thesis using parseObject_loop_empty [OF w(1)] by auto
    next
      case False
      show ?thesis by (rule parseObject_loop_members [OF w(2) ih False w(1)])
    qed
    then show "\<exists>n'. \<forall>extra. delimited (JObject ws ms) extra \<longrightarrow>
        parse n (text_of (JObject ws ms) @ extra) = Returned (True, n', unread (JObject ws ms) @ extra)"
      by (auto simp: parse_object)
  qed
next
  case (JElement w1 v w2)
  then show ?case by simp
next
  case (JMember w1 k w2 w3 v w4)
  then show ?case by simp
qed

lemma delimited_Nil: "delimited v []"
  by (cases v) (simp_all add: isdigit_def)

lemma parse_well_formed:
  assumes "well_formed v" "is_spaces ws"
  shows "\<exists>n'. \<forall>extra. delimited v extra \<longrightarrow>
           parse n (ws @ text_of v @ extra) = Returned (True, n', unread v @ extra)"
  using parse_well_formed_all(1) [of v] assms by (simp add: parse_skip)

lemma load_1e5: "load (Some ''1e5'') default_SJR = Diverges"
proof -
  have "scan_exponent ''5'' 0 = None" by (rule scan_exponent_diverges) (simp add: isdigit_def)
  then show ?thesis by (simp add: eval_simps)
qed

lemma float_1e0:
  "to_string_double
     (fp_mul round64 (fp_mul round32 (float_of_int 1) (to_float (pow10 0))) (sign_factor False)) =
   ''1.000000''"
  by code_simp

lemma parse_1ex:
  "parse default_SJR ''1ex'' = Returned (True, SJR [] [] ''1.000000'' FLOAT, ''x'')"
proof -
  have "scan_exponent ''x'' 0 = Some 0" by (rule scan_exponent_returns) (simp add: isdigit_def)
  then show ?thesis by (simp add: eval_simps float_1e0)
qed

section \<open>The claims\<close>

subsection \<open>C2: index access on a fresh node\<close>

text \<open>
  C2. For a freshly default-constructed node (type \<open>OBJECT\<close>, no children, no elements),
  \<^verbatim>\<open>n[index]\<close> leaves \<open>n\<close> with type \<open>ARRAY\<close> and exactly \<open>index + 1\<close> elements, every
  one of them a default-constructed \<open>OBJECT\<close> node, and the returned reference is the element
  at \<open>index\<close> (\<^verbatim>\<open>at\<close> does not throw). The claim is the case \<open>index = 5\<close>: six elements,
  indices 0 to 4 default nodes, the reference to index 5.
\<close>

theorem index_autovivify:
  "type (subscript_index index default_SJR) = ARRAY \<and>
   getArraySize (subscript_index index default_SJR) = index + 1 \<and>
   vectorJson (subscript_index index default_SJR) = replicate (index + 1) default_SJR \<and>
   mapJson (subscript_index index default_SJR) = [] \<and>
   subscript_index_ref index default_SJR = Inr (vectorJson (subscript_index index default_SJR) ! index)"
  by (simp add: subscript_index_def subscript_index_ref_def vector_at_def getArraySize_def
      Let_def resize_def replicate_add [symmetric] del: replicate_Suc)

theorem index_autovivify_5:
  "type (subscript_index 5 default_SJR) = ARRAY \<and>
   getArraySize (subscript_index 5 default_SJR) = 6 \<and>
   take 5 (vectorJson (subscript_index 5 default_SJR)) = replicate 5 default_SJR \<and>
   subscript_index_ref 5 default_SJR = Inr (vectorJson (subscript_index 5 default_SJR) ! 5)"
  using index_autovivify [of 5] by (simp add: numeral_eq_Suc)

subsection \<open>C3: index access on a node that is not an array\<close>

text \<open>
  C3 as stated fails: \<^verbatim>\<open>operator[](size_t)\<close> assigns \<^verbatim>\<open>type\<close> and resizes
  \<^verbatim>\<open>vectorJson\<close> and touches neither \<^verbatim>\<open>mapJson\<close> nor \<^verbatim>\<open>value\<close>. After
  \<^verbatim>\<open>n["a"]\<close> on a fresh node, \<^verbatim>\<open>n[0]\<close> leaves \<^verbatim>\<open>getChildCount() == 1\<close>; after
  \<^verbatim>\<open>setValue<std::string>("hi")\<close>, \<^verbatim>\<open>n[0]\<close> leaves the text \<^verbatim>\<open>hi\<close> in place.
\<close>

theorem index_discards_counterexample:
  "type (subscript_key ''a'' default_SJR) \<noteq> ARRAY \<and>
   getChildCount (subscript_key ''a'' default_SJR) = 1 \<and>
   getChildCount (subscript_index 0 (subscript_key ''a'' default_SJR)) \<noteq> 0 \<and>
   value' (subscript_index 0 (setValue_string ''hi'' default_SJR)) = ''hi''"
  by (simp add: subscript_key_def map_find_def c_str_def map_subscript_def getChildCount_def
      subscript_index_def Let_def setValue_string_def)

text \<open>
  C3, amended. For every node whose type is not \<open>ARRAY\<close>, \<^verbatim>\<open>n[index]\<close> sets the type to
  \<open>ARRAY\<close> and keeps the children and the scalar text as they were, so
  \<^verbatim>\<open>getChildCount()\<close> is unchanged. The elements are the first \<open>index\<close> elements the node
  already held (padded with default nodes up to \<open>index\<close>) followed by one default node at
  \<open>index\<close>.
\<close>

theorem index_keeps_content:
  "type n \<noteq> ARRAY \<Longrightarrow>
   type (subscript_index index n) = ARRAY \<and>
   mapJson (subscript_index index n) = mapJson n \<and>
   value' (subscript_index index n) = value' n \<and>
   getChildCount (subscript_index index n) = getChildCount n \<and>
   vectorJson (subscript_index index n) = resize index (vectorJson n) @ [default_SJR]"
  by (simp add: subscript_index_def Let_def getChildCount_def resize_grow)

theorem index_keeps_content_witness:
  "type (subscript_key ''a'' default_SJR) \<noteq> ARRAY \<and>
   type (subscript_index 0 (subscript_key ''a'' default_SJR)) = ARRAY \<and>
   mapJson (subscript_index 0 (subscript_key ''a'' default_SJR)) = [(''a'', default_SJR)] \<and>
   getChildCount (subscript_index 0 (subscript_key ''a'' default_SJR)) = 1 \<and>
   vectorJson (subscript_index 0 (subscript_key ''a'' default_SJR)) = [default_SJR]"
  using index_keeps_content [of "subscript_key ''a'' default_SJR" 0]
  by (simp add: subscript_key_def map_find_def c_str_def map_subscript_def getChildCount_def
      resize_def)

subsection \<open>C5: the text stored by \<^verbatim>\<open>setValue<bool>\<close>\<close>

text \<open>
  C5 as stated fails: the text stored for a \<^verbatim>\<open>bool\<close> is \<^verbatim>\<open>std::to_string\<close> of the
  promoted \<^verbatim>\<open>int\<close>, that is \<^verbatim>\<open>1\<close> or \<^verbatim>\<open>0\<close>, never \<^verbatim>\<open>true\<close> or \<^verbatim>\<open>false\<close>.
\<close>

theorem setValue_bool_counterexample:
  "value' (setValue_bool True default_SJR) \<noteq> ''true'' \<and>
   value' (setValue_bool False default_SJR) \<noteq> ''false''"
  by (simp add: setValue_bool_def to_string_bool_eq)

text \<open>
  C5, amended. For every boolean \<open>b\<close> and node \<open>n\<close>, \<^verbatim>\<open>setValue<bool>(b)\<close> sets the type to
  \<open>BOOL\<close> and stores the text \<^verbatim>\<open>1\<close> for true and \<^verbatim>\<open>0\<close> for false; children and
  elements are unchanged.
\<close>

theorem setValue_bool_text:
  "type (setValue_bool b n) = BOOL \<and>
   value' (setValue_bool b n) = (if b then ''1'' else ''0'') \<and>
   mapJson (setValue_bool b n) = mapJson n \<and>
   vectorJson (setValue_bool b n) = vectorJson n"
  by (simp add: setValue_bool_def to_string_bool_eq)

theorem setValue_bool_text_witness:
  "type (setValue_bool True default_SJR) = BOOL \<and>
   value' (setValue_bool True default_SJR) = ''1'' \<and>
   mapJson (setValue_bool True default_SJR) = [] \<and>
   vectorJson (setValue_bool True default_SJR) = []"
  using setValue_bool_text [of True default_SJR] by simp

subsection \<open>C6: reading a stored boolean as \<^verbatim>\<open>bool\<close> and as \<^verbatim>\<open>int\<close>\<close>

text \<open>
  C6. After \<^verbatim>\<open>n.setValue<bool>(true)\<close> on any node, \<^verbatim>\<open>getValue<bool>()\<close> and
  \<^verbatim>\<open>getValue<int>()\<close> both return (neither throws), both are \<^verbatim>\<open>std::stoi\<close> of the same
  stored text, \<^verbatim>\<open>getValue<int>()\<close> is 1 and \<^verbatim>\<open>getValue<bool>()\<close> is \<^verbatim>\<open>true\<close>, which the
  comparison \<^verbatim>\<open>==\<close> promotes to 1: the two reads compare equal.
\<close>

theorem bool_int_read:
  "getValue_bool (setValue_bool True n) = Inr True \<and>
   getValue_int (setValue_bool True n) = Inr 1 \<and>
   int_of_bool True = 1"
  by (simp add: getValue_bool_def getValue_int_def setValue_bool_def to_string_bool_eq stoi_1
      int_of_bool_def)

theorem bool_int_read_witness:
  "getValue_bool (setValue_bool True default_SJR) = Inr True \<and>
   getValue_int (setValue_bool True default_SJR) = Inr 1"
  using bool_int_read [of default_SJR] by simp

subsection \<open>C7: reading text that is not an integer as \<^verbatim>\<open>int\<close>\<close>

text \<open>
  C7 does not hold as stated: \<^verbatim>\<open>getValue<int>()\<close> is \<^verbatim>\<open>std::stoi\<close> of the stored text,
  which reads an integer at the start of the text and ignores what follows. The text
  \<^verbatim>\<open>12abc\<close> is not an integer, and after \<^verbatim>\<open>setValue<std::string>("12abc")\<close> the read
  returns 12. The text \<^verbatim>\<open>2.500000\<close>, which \<^verbatim>\<open>load\<close> stores for the input \<^verbatim>\<open>2.5\<close>, is not
  an integer, and the read returns 2. Neither read throws.
\<close>

theorem getValue_int_counterexample:
  "\<not> integer_text ''12abc'' \<and>
   getValue_int (setValue_string ''12abc'' default_SJR) = Inr 12 \<and>
   \<not> integer_text ''2.500000'' \<and>
   load (Some ''2.5'') default_SJR = Returned (None, SJR [] [] ''2.500000'' FLOAT) \<and>
   getValue_int (SJR [] [] ''2.500000'' FLOAT) = Inr 2"
proof -
  have 1: "\<not> integer_text ''12abc''" "\<not> integer_text ''2.500000''"
    by (simp_all add: integer_text_def isdigit_def)
  have 2: "getValue_int (setValue_string ''12abc'' default_SJR) = Inr 12"
    by (simp add: getValue_int_def setValue_string_def stoi_def isspace_def isdigit_def Let_def
        dec_val_def digit_val_def)
  have 3: "load (Some ''2.5'') default_SJR = Returned (None, SJR [] [] ''2.500000'' FLOAT)"
    by (simp add: eval_simps float_2_5)
  have 4: "getValue_int (SJR [] [] ''2.500000'' FLOAT) = Inr 2"
    by (simp add: getValue_int_def stoi_def isspace_def isdigit_def Let_def dec_val_def
        digit_val_def)
  from 1 2 3 4 show ?thesis by simp
qed

text \<open>
  C7, amended. \<^verbatim>\<open>getValue<int>()\<close> fails with a ValueTypeError (a thrown
  \<^verbatim>\<open>std::invalid_argument\<close> or \<^verbatim>\<open>std::out_of_range\<close>, never a returned value) exactly
  when the stored text does not begin with an integer in the range of \<^verbatim>\<open>int\<close>: optional
  white space, an optional sign and at least one digit, followed by anything that is not a
  further digit. When the text begins with such an integer, \<^verbatim>\<open>getValue<int>()\<close> returns its
  value, and the bytes behind the digits are ignored. In particular the read fails for the
  text \<^verbatim>\<open>hi\<close> stored by \<^verbatim>\<open>setValue<std::string>("hi")\<close>.
\<close>

theorem getValue_int_mismatch:
  "((\<exists>e. getValue_int n = Inl e \<and> ValueTypeError e) =
    (\<not> (\<exists>ws sg ds rest.
          value' n = ws @ sg @ ds @ rest \<and> (\<forall>c\<in>set ws. isspace c) \<and> sg \<in> {[], ''+'', ''-''} \<and>
          ds \<noteq> [] \<and> (\<forall>c\<in>set ds. isdigit c) \<and> (rest = [] \<or> \<not> isdigit (hd rest)) \<and>
          - (2 ^ 31) \<le> (if sg = ''-'' then - dec_val ds else dec_val ds) \<and>
          (if sg = ''-'' then - dec_val ds else dec_val ds) \<le> 2 ^ 31 - 1))) \<and>
   (\<forall>ws sg ds rest.
      value' n = ws @ sg @ ds @ rest \<and> (\<forall>c\<in>set ws. isspace c) \<and> sg \<in> {[], ''+'', ''-''} \<and>
      ds \<noteq> [] \<and> (\<forall>c\<in>set ds. isdigit c) \<and> (rest = [] \<or> \<not> isdigit (hd rest)) \<and>
      - (2 ^ 31) \<le> (if sg = ''-'' then - dec_val ds else dec_val ds) \<and>
      (if sg = ''-'' then - dec_val ds else dec_val ds) \<le> 2 ^ 31 - 1 \<longrightarrow>
      getValue_int n = Inr (if sg = ''-'' then - dec_val ds else dec_val ds))"
proof (intro conjI allI impI)
  show "(\<exists>e. getValue_int n = Inl e \<and> ValueTypeError e) =
    (\<not> (\<exists>ws sg ds rest.
          value' n = ws @ sg @ ds @ rest \<and> (\<forall>c\<in>set ws. isspace c) \<and> sg \<in> {[], ''+'', ''-''} \<and>
          ds \<noteq> [] \<and> (\<forall>c\<in>set ds. isdigit c) \<and> (rest = [] \<or> \<not> isdigit (hd rest)) \<and>
          - (2 ^ 31) \<le> (if sg = ''-'' then - dec_val ds else dec_val ds) \<and>
          (if sg = ''-'' then - dec_val ds else dec_val ds) \<le> 2 ^ 31 - 1))"
    (is "?L = (\<not> ?R)")
  proof
    assume ?L
    then obtain e where e: "stoi (value' n) = Inl e" by (auto simp: getValue_int_def)
    show "\<not> ?R"
    proof
      assume ?R
      then obtain ws sg ds rest where
        "value' n = ws @ sg @ ds @ rest" "\<forall>c\<in>set ws. isspace c" "sg \<in> {[], ''+'', ''-''}"
        "ds \<noteq> []" "\<forall>c\<in>set ds. isdigit c" "rest = [] \<or> \<not> isdigit (hd rest)"
        "- (2 ^ 31) \<le> (if sg = ''-'' then - dec_val ds else dec_val ds)"
        "(if sg = ''-'' then - dec_val ds else dec_val ds) \<le> 2 ^ 31 - 1"
        by blast
      from stoi_of_prefix [OF this(2-8)] this(1) e show False by simp
    qed
  next
    assume ni: "\<not> ?R"
    show ?L
    proof (cases "stoi (value' n)")
      case (Inl e)
      then show ?thesis using stoi_error by (auto simp: getValue_int_def)
    next
      case (Inr v)
      from stoi_prefix [OF this] ni show ?thesis by blast
    qed
  qed
next
  fix ws sg ds rest
  assume "value' n = ws @ sg @ ds @ rest \<and> (\<forall>c\<in>set ws. isspace c) \<and> sg \<in> {[], ''+'', ''-''} \<and>
      ds \<noteq> [] \<and> (\<forall>c\<in>set ds. isdigit c) \<and> (rest = [] \<or> \<not> isdigit (hd rest)) \<and>
      - (2 ^ 31) \<le> (if sg = ''-'' then - dec_val ds else dec_val ds) \<and>
      (if sg = ''-'' then - dec_val ds else dec_val ds) \<le> 2 ^ 31 - 1"
  then have
    "value' n = ws @ sg @ ds @ rest" "\<forall>c\<in>set ws. isspace c" "sg \<in> {[], ''+'', ''-''}"
    "ds \<noteq> []" "\<forall>c\<in>set ds. isdigit c" "rest = [] \<or> \<not> isdigit (hd rest)"
    "- (2 ^ 31) \<le> (if sg = ''-'' then - dec_val ds else dec_val ds)"
    "(if sg = ''-'' then - dec_val ds else dec_val ds) \<le> 2 ^ 31 - 1"
    by blast+
  from stoi_of_prefix [OF this(2-8)] this(1)
  show "getValue_int n = Inr (if sg = ''-'' then - dec_val ds else dec_val ds)"
    by (simp add: getValue_int_def)
qed

theorem getValue_int_mismatch_witness:
  "getValue_int (setValue_string '' -42abc'' default_SJR) = Inr (- 42) \<and>
   getValue_int (setValue_string ''hi'' default_SJR) = Inl invalid_argument \<and>
   ValueTypeError invalid_argument \<and>
   \<not> (\<exists>ws sg ds rest.
        ''hi'' = ws @ sg @ ds @ rest \<and> (\<forall>c\<in>set ws. isspace c) \<and> sg \<in> {[], ''+'', ''-''} \<and>
        ds \<noteq> [] \<and> (\<forall>c\<in>set ds. isdigit c) \<and> (rest = [] \<or> \<not> isdigit (hd rest)) \<and>
        - (2 ^ 31) \<le> (if sg = ''-'' then - dec_val ds else dec_val ds) \<and>
        (if sg = ''-'' then - dec_val ds else dec_val ds) \<le> 2 ^ 31 - 1)"
proof -
  have g: "getValue_int (setValue_string ''hi'' default_SJR) = Inl invalid_argument"
    by (simp add: getValue_int_def setValue_string_def stoi_def isspace_def isdigit_def Let_def)
  have v: "ValueTypeError invalid_argument" by (simp add: ValueTypeError_def)
  have t: "value' (setValue_string '' -42abc'' default_SJR) = '' '' @ ''-'' @ ''42'' @ ''abc''"
    "\<forall>c\<in>set '' ''. isspace c" "\<forall>c\<in>set ''42''. isdigit c" "\<not> isdigit (hd ''abc'')"
    "dec_val ''42'' = 42"
    by (simp_all add: setValue_string_def isspace_def isdigit_def dec_val_def digit_val_def)
  have "\<forall>ws sg ds rest.
      value' (setValue_string '' -42abc'' default_SJR) = ws @ sg @ ds @ rest \<and>
      (\<forall>c\<in>set ws. isspace c) \<and> sg \<in> {[], ''+'', ''-''} \<and>
      ds \<noteq> [] \<and> (\<forall>c\<in>set ds. isdigit c) \<and> (rest = [] \<or> \<not> isdigit (hd rest)) \<and>
      - (2 ^ 31) \<le> (if sg = ''-'' then - dec_val ds else dec_val ds) \<and>
      (if sg = ''-'' then - dec_val ds else dec_val ds) \<le> 2 ^ 31 - 1 \<longrightarrow>
      getValue_int (setValue_string '' -42abc'' default_SJR) =
        Inr (if sg = ''-'' then - dec_val ds else dec_val ds)"
    using getValue_int_mismatch [of "setValue_string '' -42abc'' default_SJR"] by (rule conjunct2)
  from this [rule_format, of "'' ''" "''-''" "''42''" "''abc''"] t
  have 1: "getValue_int (setValue_string '' -42abc'' default_SJR) = Inr (- 42)"
    by simp
  from getValue_int_mismatch [of "setValue_string ''hi'' default_SJR"] g v
  have 2: "\<not> (\<exists>ws sg ds rest.
        ''hi'' = ws @ sg @ ds @ rest \<and> (\<forall>c\<in>set ws. isspace c) \<and> sg \<in> {[], ''+'', ''-''} \<and>
        ds \<noteq> [] \<and> (\<forall>c\<in>set ds. isdigit c) \<and> (rest = [] \<or> \<not> isdigit (hd rest)) \<and>
        - (2 ^ 31) \<le> (if sg = ''-'' then - dec_val ds else dec_val ds) \<and>
        (if sg = ''-'' then - dec_val ds else dec_val ds) \<le> 2 ^ 31 - 1)"
    by (simp add: setValue_string_def)
  from 1 g v 2 show ?thesis by simp
qed

subsection \<open>C1: a nested value that fails to parse\<close>

text \<open>
  C1 does not hold of the code. On the input \<^verbatim>\<open>{"a": }\<close> the value after the colon fails to
  parse, \<^verbatim>\<open>parseObject\<close> returns \<^verbatim>\<open>true\<close> at line 624, and \<^verbatim>\<open>load\<close> returns normally
  with the enclosing (empty) object kept: no FormatError. The sibling \<^verbatim>\<open>parseArray\<close> returns
  \<^verbatim>\<open>false\<close> in the same situation (line 537), so that \<^verbatim>\<open>load\<close> throws on \<^verbatim>\<open>[x\<close>.
\<close>

theorem object_nested_failure_kept:
  "load (Some (''{'' @ quoted ''a'' @ '': }'')) default_SJR = Returned (None, SJR [] [] [] OBJECT) \<and>
   load (Some ''[x'') default_SJR = Returned (Some FormatError, SJR [] [] [] ARRAY)"
  by (simp add: eval_simps)

subsection \<open>C4: the end-to-end example\<close>

text \<open>
  C4 as stated fails in its second half. The text written for the example document is not the
  text of the specification: \<^verbatim>\<open>writeObject\<close> writes a line feed before the opening brace
  (line 319) and separates the pairs by comma, space, line feed (lines 335-336), not by comma,
  line feed.
\<close>

theorem example_text_counterexample:
  "fst (snd (save True 0
     (SJR [(''a'', SJR [] [] ''1'' INT'), (''b'', SJR [] [] ''2.500000'' FLOAT),
           (''c'', SJR [] [] ''1'' BOOL)] [] [] OBJECT))) \<noteq>
    ''{'' @ newline @
    tab @ quoted ''a'' @ '': 1,'' @ newline @
    tab @ quoted ''b'' @ '': 2.5,'' @ newline @
    tab @ quoted ''c'' @ '': true'' @ newline @
    ''}''"
  by (simp add: write_simps stof_2_5 put_float_2_5)

text \<open>
  C4, amended. Loading \<^verbatim>\<open>{"a": 1, "b": 2.5, "c": true}\<close> into a fresh node returns normally
  with an OBJECT node of three children (\<^verbatim>\<open>getChildCount() == 3\<close>); saving that node (the
  indentation counter at 0) returns \<^verbatim>\<open>true\<close>, leaves the counter at 0 and writes exactly: a
  line feed, \<^verbatim>\<open>{\<close>, a line feed, then each pair \<^verbatim>\<open>"key": value\<close> behind one tab, the pairs
  separated by comma, space and line feed, then a line feed and \<^verbatim>\<open>}\<close>.
\<close>

theorem example_parse_save:
  "load (Some (''{'' @ quoted ''a'' @ '': 1, '' @ quoted ''b'' @ '': 2.5, '' @ quoted ''c'' @ '': true}''))
     default_SJR =
   Returned (None,
     SJR [(''a'', SJR [] [] ''1'' INT'), (''b'', SJR [] [] ''2.500000'' FLOAT),
          (''c'', SJR [] [] ''1'' BOOL)] [] [] OBJECT) \<and>
   getChildCount
     (SJR [(''a'', SJR [] [] ''1'' INT'), (''b'', SJR [] [] ''2.500000'' FLOAT),
           (''c'', SJR [] [] ''1'' BOOL)] [] [] OBJECT) = 3 \<and>
   save True 0
     (SJR [(''a'', SJR [] [] ''1'' INT'), (''b'', SJR [] [] ''2.500000'' FLOAT),
           (''c'', SJR [] [] ''1'' BOOL)] [] [] OBJECT) =
   (Inr True,
    newline @ ''{'' @ newline @
    tab @ quoted ''a'' @ '': 1, '' @ newline @
    tab @ quoted ''b'' @ '': 2.5, '' @ newline @
    tab @ quoted ''c'' @ '': true'' @ newline @
    ''}'', 0)"
proof -
  have 1: "load (Some (''{'' @ quoted ''a'' @ '': 1, '' @ quoted ''b'' @ '': 2.5, '' @ quoted ''c'' @ '': true}''))
     default_SJR =
   Returned (None,
     SJR [(''a'', SJR [] [] ''1'' INT'), (''b'', SJR [] [] ''2.500000'' FLOAT),
          (''c'', SJR [] [] ''1'' BOOL)] [] [] OBJECT)"
    by (simp add: eval_simps float_2_5)
  have 2: "save True 0
     (SJR [(''a'', SJR [] [] ''1'' INT'), (''b'', SJR [] [] ''2.500000'' FLOAT),
           (''c'', SJR [] [] ''1'' BOOL)] [] [] OBJECT) =
   (Inr True,
    newline @ ''{'' @ newline @
    tab @ quoted ''a'' @ '': 1, '' @ newline @
    tab @ quoted ''b'' @ '': 2.5, '' @ newline @
    tab @ quoted ''c'' @ '': true'' @ newline @
    ''}'', 0)"
    by (simp add: write_simps stof_2_5 put_float_2_5)
  show ?thesis using 1 2 by (simp add: getChildCount_def)
qed

subsection \<open>C8: the exponent loop\<close>

text \<open>
  C8 as stated fails for a number with a fraction: after the digits of the fraction
  \<^verbatim>\<open>parseNumber\<close> returns (line 449) without looking for an exponent marker, so on
  \<^verbatim>\<open>2.5e3\<close> it terminates with the cursor on the \<^verbatim>\<open>e\<close>.
\<close>

theorem fraction_exponent_returns:
  "parseNumber default_SJR ''2.5e3'' = Returned (True, SJR [] [] ''2.500000'' FLOAT, ''e3'')"
  by (simp add: eval_simps float_2_5)

text \<open>
  C8, amended. The loop over the exponent digits never moves the cursor, so it returns only when
  the byte after the marker is not a digit. Consequently, for every text at the cursor made of an
  optional sign, at least one digit, the marker \<^verbatim>\<open>e\<close> or \<^verbatim>\<open>E\<close> directly after these digits,
  and at least one digit after the marker, \<^verbatim>\<open>parseNumber\<close> does not terminate, whatever
  follows and whatever the node.
\<close>

theorem exponent_never_returns:
  assumes "sg \<in> {[], ''+'', ''-''}" and "ds \<noteq> []" and "\<forall>c\<in>set ds. isdigit c"
    and "e = CHR ''e'' \<or> e = CHR ''E''" and "isdigit d"
  shows "parseNumber n (sg @ ds @ e # d # rest) = Diverges"
proof -
  obtain d0 ds' where ds: "ds = d0 # ds'" using assms(2) by (cases ds) auto
  have d0: "isdigit d0" using assms(3) ds by simp
  have ne: "\<not> isdigit (cur (e # d # rest))" using assms(4) by (auto simp: cur_def)
  have sd: "scan_digits 0 (ds @ e # d # rest) = (fst (scan_digits 0 ds), e # d # rest)"
    using scan_digits_all [OF assms(3) ne] .
  have div: "scan_exponent (d # rest) 0 = None"
    using assms(5) by (intro scan_exponent_diverges) (simp add: cur_def)
  have nd: "d0 \<noteq> CHR ''-''" "d0 \<noteq> CHR ''+''" using d0 by (auto simp: isdigit_def)
  from assms(1) show ?thesis
  proof (elim insertE emptyE)
    assume "sg = []"
    then show ?thesis using sd div d0 nd assms(4) ds
      by (auto simp: parseNumber_def Let_def cur_def)
  next
    assume "sg = ''+''"
    then show ?thesis using sd div assms(4)
      by (auto simp: parseNumber_def Let_def cur_def)
  next
    assume "sg = ''-''"
    then show ?thesis using sd div assms(4)
      by (auto simp: parseNumber_def Let_def cur_def)
  qed
qed

theorem exponent_never_returns_witness:
  "parseNumber default_SJR ''1e5'' = Diverges \<and> parseNumber default_SJR ''-12E0'' = Diverges"
  using exponent_never_returns [of "[]" "''1''" "CHR ''e''" "CHR ''5''" default_SJR "[]"]
    exponent_never_returns [of "''-''" "''12''" "CHR ''E''" "CHR ''0''" default_SJR "[]"]
  by (simp add: isdigit_def)

subsection \<open>C9: key order\<close>



subsection \<open>C10: bytes after the first value\<close>

text \<open>
  C10 does not hold as stated: the bytes behind a value are not always ignored. The text
  \<^verbatim>\<open>1\<close> is a complete well-formed value, and \<^verbatim>\<open>load\<close> of it succeeds with the Int node
  \<^verbatim>\<open>1\<close>. When the bytes \<^verbatim>\<open>e5\<close> follow it, \<^verbatim>\<open>load\<close> never returns, because the parser
  takes them for an exponent. When the bytes \<^verbatim>\<open>ex\<close> follow it, \<^verbatim>\<open>load\<close> succeeds, but the
  parser has read past the value: it has consumed the \<^verbatim>\<open>e\<close> and built the Float node
  \<^verbatim>\<open>1.000000\<close>.
\<close>

theorem trailing_bytes_counterexample:
  "well_formed (JInt [] ''1'') \<and> text_of (JInt [] ''1'') = ''1'' \<and>
   load (Some ''1'') default_SJR = Returned (None, SJR [] [] ''1'' INT') \<and>
   load (Some (''1'' @ ''e5'')) default_SJR = Diverges \<and>
   parse default_SJR (''1'' @ ''ex'') = Returned (True, SJR [] [] ''1.000000'' FLOAT, ''x'') \<and>
   load (Some (''1'' @ ''ex'')) default_SJR = Returned (None, SJR [] [] ''1.000000'' FLOAT)"
proof -
  have 1: "well_formed (JInt [] ''1'')" "text_of (JInt [] ''1'') = ''1''"
    by (simp_all add: is_sign_def is_digits_def isdigit_def)
  have 2: "load (Some ''1'') default_SJR = Returned (None, SJR [] [] ''1'' INT')"
    by (simp add: eval_simps)
  have 3: "load (Some ''1ex'') default_SJR = Returned (None, SJR [] [] ''1.000000'' FLOAT)"
    using parse_1ex by (simp add: load_def)
  from 1 2 3 load_1e5 parse_1ex show ?thesis by simp
qed

text \<open>
  C10, amended. For every input text that is optional white space, then one complete
  well-formed value (a literal \<^verbatim>\<open>true\<close> or \<^verbatim>\<open>false\<close>; a number without exponent; a string
  without embedded quote; an array or an object of well-formed values, with white space
  between the tokens, in which no string value ends in white space), then bytes \<open>extra\<close> that
  do not continue the value's last token (behind an integer no digit, point or exponent
  marker, behind a fraction no digit, behind any other value arbitrary bytes, as in
  \<^verbatim>\<open>true xyz\<close>): the parser returns true and has consumed nothing of \<open>extra\<close>, the node it has
  built is the node it builds for the value alone, and \<^verbatim>\<open>load\<close> returns normally with that
  node. No FormatError is raised for the trailing bytes. The cursor is on the first byte of
  \<open>extra\<close>, except behind a string whose last byte is white space, where it is on the closing
  quote of the string.
\<close>

theorem load_ignores_trailing:
  assumes "well_formed v" and "is_spaces ws" and "delimited v extra"
  shows "\<exists>n'. parse n (ws @ text_of v) = Returned (True, n', unread v) \<and>
              parse n (ws @ text_of v @ extra) = Returned (True, n', unread v @ extra) \<and>
              load (Some (ws @ text_of v)) n = Returned (None, n') \<and>
              load (Some (ws @ text_of v @ extra)) n = Returned (None, n')"
proof -
  from parse_well_formed [OF assms(1,2), of n] obtain n' where
    n': "\<And>x. delimited v x \<Longrightarrow> parse n (ws @ text_of v @ x) = Returned (True, n', unread v @ x)"
    by blast
  from n' [OF delimited_Nil] have 1: "parse n (ws @ text_of v) = Returned (True, n', unread v)"
    by simp
  note 2 = n' [OF assms(3)]
  from 1 have 3: "load (Some (ws @ text_of v)) n = Returned (None, n')" by (simp add: load_def)
  from 2 have 4: "load (Some (ws @ text_of v @ extra)) n = Returned (None, n')"
    by (simp add: load_def)
  from 1 2 3 4 show ?thesis by blast
qed

theorem load_ignores_trailing_witness:
  "well_formed (JObject []
      [JMember [] ''a'' [] '' ''
         (JArray [] [JElement [] (JInt [] ''1'') [], JElement '' '' (JBool True) []]) [],
       JMember '' '' ''b'' [] '' '' (JString ''x y'') [],
       JMember '' '' ''c'' [] '' '' (JFrac [] ''2'' ''5'') []]) \<and>
   is_spaces '' '' \<and>
   delimited (JObject []
      [JMember [] ''a'' [] '' ''
         (JArray [] [JElement [] (JInt [] ''1'') [], JElement '' '' (JBool True) []]) [],
       JMember '' '' ''b'' [] '' '' (JString ''x y'') [],
       JMember '' '' ''c'' [] '' '' (JFrac [] ''2'' ''5'') []]) ''} xyz'' \<and>
   text_of (JObject []
      [JMember [] ''a'' [] '' ''
         (JArray [] [JElement [] (JInt [] ''1'') [], JElement '' '' (JBool True) []]) [],
       JMember '' '' ''b'' [] '' '' (JString ''x y'') [],
       JMember '' '' ''c'' [] '' '' (JFrac [] ''2'' ''5'') []]) =
     ''{'' @ quoted ''a'' @ '': [1, true], '' @ quoted ''b'' @ '': '' @ quoted ''x y'' @ '', '' @
       quoted ''c'' @ '': 2.5}'' \<and>
   load (Some ('' {'' @ quoted ''a'' @ '': [1, true], '' @ quoted ''b'' @ '': '' @ quoted ''x y'' @
       '', '' @ quoted ''c'' @ '': 2.5}'' @ ''} xyz'')) default_SJR =
     Returned (None,
       SJR [(''a'', SJR [] [SJR [] [] ''1'' INT', SJR [] [] ''1'' BOOL] [] ARRAY),
            (''b'', SJR [] [] ''xy'' STRING),
            (''c'', SJR [] [] ''2.500000'' FLOAT)] [] [] OBJECT) \<and>
   well_formed (JString ''a '') \<and> is_spaces [] \<and> delimited (JString ''a '') ''xyz'' \<and>
   unread (JString ''a '') = [CHR 0x22] \<and>
   load (Some (quoted ''a '' @ ''xyz'')) default_SJR = Returned (None, SJR [] [] ''a'' STRING)"
proof -
  let ?v = "JObject []
      [JMember [] ''a'' [] '' ''
         (JArray [] [JElement [] (JInt [] ''1'') [], JElement '' '' (JBool True) []]) [],
       JMember '' '' ''b'' [] '' '' (JString ''x y'') [],
       JMember '' '' ''c'' [] '' '' (JFrac [] ''2'' ''5'') []]"
  let ?t = "''{'' @ quoted ''a'' @ '': [1, true], '' @ quoted ''b'' @ '': '' @ quoted ''x y'' @ '', '' @
       quoted ''c'' @ '': 2.5}''"
  let ?n = "SJR [(''a'', SJR [] [SJR [] [] ''1'' INT', SJR [] [] ''1'' BOOL] [] ARRAY),
            (''b'', SJR [] [] ''xy'' STRING),
            (''c'', SJR [] [] ''2.500000'' FLOAT)] [] [] OBJECT"
  have w: "well_formed ?v" "is_spaces '' ''" "delimited ?v ''} xyz''"
    by (simp_all add: is_spaces_def is_sign_def is_digits_def isdigit_def isspace_def)
  have t: "text_of ?v = ?t" by (simp add: quoted_def)
  have p: "parse default_SJR ('' '' @ ?t) = Returned (True, ?n, [])"
    by (simp add: eval_simps float_2_5)
  from load_ignores_trailing [OF w, of default_SJR] obtain n' where
    "parse default_SJR ('' '' @ text_of ?v) = Returned (True, n', [])"
    "load (Some ('' '' @ text_of ?v @ ''} xyz'')) default_SJR = Returned (None, n')"
    by auto
  with p t have 1: "load (Some ('' '' @ ?t @ ''} xyz'')) default_SJR = Returned (None, ?n)"
    by simp
  have w2: "well_formed (JString ''a '')" "is_spaces []" "delimited (JString ''a '') ''xyz''"
    by (simp_all add: is_spaces_def)
  have u: "unread (JString ''a '') = [CHR 0x22]" by (simp add: unread_def isspace_def)
  have p2: "parse default_SJR (quoted ''a '') = Returned (True, SJR [] [] ''a'' STRING, [CHR 0x22])"
    by (simp add: eval_simps)
  from load_ignores_trailing [OF w2, of default_SJR] obtain m' where
    "parse default_SJR (text_of (JString ''a '')) = Returned (True, m', unread (JString ''a ''))"
    "load (Some (text_of (JString ''a '') @ ''xyz'')) default_SJR = Returned (None, m')"
    by auto
  with p2 have 2: "load (Some (quoted ''a '' @ ''xyz'')) default_SJR =
      Returned (None, SJR [] [] ''a'' STRING)"
    by simp
  from w t 1 w2 u 2 show ?thesis by simp
qed

end
